theory Spec2Isabelle
  imports Main "HOL-Library.Sublist"
begin

section \<open>Link scanner: data model\<close>

text \<open>
  The content script \<^verbatim>\<open>src/contents/link-scanner.ts\<close> is embedded function by function.
  JavaScript strings are modelled as \<^typ>\<open>string\<close> (code units below 256), numbers that
  hold timestamps as \<^typ>\<open>int\<close> (milliseconds). The module's variables, the host's timer
  and observer tables and the record of messages sent to the background script are the fields
  of one state record that every function takes and returns.
\<close>

datatype link_type = hoster | magnet

text \<open>\<^verbatim>\<open>DetectedLink\<close>; the type \<^verbatim>\<open>UnrestrictedLink\<close> is declared outside this file and is
  the parameter \<open>'u\<close>.\<close>

record 'u detected_link =
  url :: string
  host :: string
  type :: link_type
  unrestrictedLink :: "'u option"

text \<open>A compiled \<^verbatim>\<open>RegExp\<close> object: every one this file builds has the flag \<^verbatim>\<open>i\<close> and no
  other, so the source text identifies it and \<^verbatim>\<open>test\<close> keeps no position between calls.\<close>

datatype regexp = RegExp (source: string)

text \<open>Messages this script sends to the background script.\<close>

datatype 'u message =
    GET_HOSTS_REGEX
  | REPORT_DETECTED_LINKS "'u detected_link list"
  | UNRESTRICT_LINK string

text \<open>What the callback of \<^verbatim>\<open>GET_HOSTS_REGEX\<close> receives: whether \<^verbatim>\<open>chrome.runtime.lastError\<close>
  is set, and the response (\<open>None\<close> for \<^verbatim>\<open>undefined\<close>) with its \<^verbatim>\<open>success\<close> flag and its
  \<^verbatim>\<open>data\<close> (\<open>None\<close> when absent), typed as the message contract has it: a list of
  pattern strings. The browser calls the callback for every message, with \<^verbatim>\<open>lastError\<close> set
  when no answer comes.\<close>

record hosts_response =
  success :: bool
  data :: "string list option"

record hosts_callback =
  lastError :: bool
  response :: "hosts_response option"

text \<open>How the promise of \<^verbatim>\<open>sendMessage({type: "UNRESTRICT_LINK", ...})\<close> settles.\<close>

datatype 'u unrestrict_reply =
    Rejected
  | Resolved (reply_success: bool) (reply_data: "'u option")

text \<open>
  The environment the script runs in. The regular expression engine and the URL parser are the
  browser's: \<open>regexp_compiles s\<close> says that \<^verbatim>\<open>new RegExp(s, "i")\<close> does not throw,
  \<open>regexp_test s u\<close> is \<^verbatim>\<open>new RegExp(s, "i").test(u)\<close>, and \<open>url_hostname u\<close> is
  \<^verbatim>\<open>new URL(u).hostname\<close> (\<open>None\<close> when the constructor throws). The background script
  answers a message as a function of everything sent so far, the message included.
\<close>

record 'u env =
  regexp_compiles :: "string \<Rightarrow> bool"
  regexp_test :: "string \<Rightarrow> string \<Rightarrow> bool"
  url_hostname :: "string \<Rightarrow> string option"
  hosts_regex_reply :: "'u message list \<Rightarrow> hosts_callback"
  unrestrict_reply :: "'u message list \<Rightarrow> 'u unrestrict_reply"

record 'u state =
  cachedHostsRegex :: "regexp list option"
  cachedHostsRegexTimestamp :: int
  scanTimeout :: "nat option"
  isScanning :: bool
  observer :: "nat option"
  processedLinks :: "string set"
  unrestrictedCache :: "string \<rightharpoonup> 'u"
  timers :: "(nat \<times> int) list"
  next_timer :: nat
  observing :: "nat list"
  next_observer :: nat
  scans :: "int list"
  sent :: "'u message list"

text \<open>
  Beyond the module's own variables: \<open>timers\<close> are the pending timeouts of the host (handle
  and due time), \<open>next_timer\<close> the next fresh handle (handles are positive, hence truthy),
  \<open>observing\<close> the mutation observers that are connected, \<open>scans\<close> the times at which a
  timer callback invoked \<^verbatim>\<open>performAutoScan\<close>, and \<open>sent\<close> the messages sent so far.
\<close>

definition CACHE_TTL :: int where
  "CACHE_TTL = 5 * 60 * 1000"

definition SCAN_DEBOUNCE_MS :: int where
  "SCAN_DEBOUNCE_MS = 1000"

definition initial :: "'u state" where
  "initial = \<lparr> cachedHostsRegex = None, cachedHostsRegexTimestamp = 0, scanTimeout = None,
     isScanning = False, observer = None, processedLinks = {}, unrestrictedCache = Map.empty,
     timers = [], next_timer = 1, observing = [], next_observer = 1, scans = [], sent = [] \<rparr>"

definition send :: "'u message \<Rightarrow> 'u state \<Rightarrow> 'u state" where
  "send m st = st\<lparr> sent := sent st @ [m] \<rparr>"

section \<open>Pattern cache\<close>

datatype js_error = SyntaxError

text \<open>Lines 58-61: strip the slash delimiters, then compile.\<close>

definition strip_delimiters :: "string \<Rightarrow> string" where
  "strip_delimiters pattern =
     (if prefix ''/'' pattern \<and> suffix ''/'' pattern then butlast (tl pattern) else pattern)"

definition compile :: "'u env \<Rightarrow> string \<Rightarrow> js_error + regexp" where
  "compile env pattern =
     (let stripped = strip_delimiters pattern
      in if regexp_compiles env stripped then Inr (RegExp stripped) else Inl SyntaxError)"

text \<open>\<^verbatim>\<open>response.data.map(...)\<close>: the first pattern that throws ends the map.\<close>

fun compile_all :: "'u env \<Rightarrow> string list \<Rightarrow> js_error + regexp list" where
  "compile_all env [] = Inr []"
| "compile_all env (p # ps) =
     (case compile env p of
        Inl e \<Rightarrow> Inl e
      | Inr r \<Rightarrow> (case compile_all env ps of Inl e \<Rightarrow> Inl e | Inr rs \<Rightarrow> Inr (r # rs)))"

text \<open>Line 47: the data of the response, \<open>None\<close> when the guard resolves to the empty list.\<close>

definition response_data :: "hosts_callback \<Rightarrow> string list option" where
  "response_data cb =
     (if lastError cb then None
      else case response cb of
             None \<Rightarrow> None
           | Some r \<Rightarrow> if success r then data r else None)"

text \<open>Lines 46-69: the callback of the fetch.\<close>

definition hosts_callback_body ::
  "'u env \<Rightarrow> int \<Rightarrow> hosts_callback \<Rightarrow> 'u state \<Rightarrow> regexp list \<times> 'u state" where
  "hosts_callback_body env now cb st =
     (case response_data cb of
        None \<Rightarrow> ([], st)
      | Some patterns \<Rightarrow>
          (case compile_all env patterns of
             Inl e \<Rightarrow> ([], st)
           | Inr rs \<Rightarrow> (rs, st\<lparr> cachedHostsRegex := Some rs, cachedHostsRegexTimestamp := now \<rparr>)))"

text \<open>Lines 43-71: the fetch. The message is sent, and the callback runs on the answer.\<close>

definition fetchHostsRegex :: "'u env \<Rightarrow> int \<Rightarrow> 'u state \<Rightarrow> regexp list \<times> 'u state" where
  "fetchHostsRegex env now st =
     (let st1 = send GET_HOSTS_REGEX st
      in hosts_callback_body env now (hosts_regex_reply env (sent st1)) st1)"

text \<open>Lines 37-72. The result is the list the promise resolves to, and the new state.\<close>

definition getHostsRegex :: "'u env \<Rightarrow> int \<Rightarrow> 'u state \<Rightarrow> regexp list \<times> 'u state" where
  "getHostsRegex env now st =
     (case cachedHostsRegex st of
        Some rs \<Rightarrow>
          if now - cachedHostsRegexTimestamp st < CACHE_TTL then (rs, st)
          else fetchHostsRegex env now st
      | None \<Rightarrow> fetchHostsRegex env now st)"

section \<open>Link extraction\<close>

text \<open>Lines 77-87.\<close>

definition extractHost :: "'u env \<Rightarrow> string \<Rightarrow> string" where
  "extractHost env u =
     (if prefix ''magnet:'' u then ''magnet''
      else case url_hostname env u of
             None \<Rightarrow> ''unknown''
           | Some h \<Rightarrow> if prefix ''www.'' h then drop 4 h else h)"

text \<open>Lines 92-94.\<close>

definition matchesHosterPattern :: "'u env \<Rightarrow> string \<Rightarrow> regexp list \<Rightarrow> bool" where
  "matchesHosterPattern env u patterns = list_ex (\<lambda>p. regexp_test env (source p) u) patterns"

text \<open>
  Lines 99-103: all matches of \<^verbatim>\<open>/(https?:\/\/[^\s<>"']+)/gi\<close>, left to right. Under the
  flag \<^verbatim>\<open>i\<close> a letter of the pattern matches a code unit with the same upper case; among the
  code units below 256 the class \<^verbatim>\<open>\s\<close> holds 9 to 13, 32 and 160.
\<close>

definition ascii_upper :: "char \<Rightarrow> char" where
  "ascii_upper c =
     (let n = of_char c :: nat in if 97 \<le> n \<and> n \<le> 122 then char_of (n - 32) else c)"

fun literal_ci :: "string \<Rightarrow> string \<Rightarrow> string option" where
  "literal_ci [] text = Some text"
| "literal_ci (p # ps) [] = None"
| "literal_ci (p # ps) (c # cs) =
     (if ascii_upper c = ascii_upper p then literal_ci ps cs else None)"

definition js_whitespace :: "char \<Rightarrow> bool" where
  "js_whitespace c = (of_char c \<in> {9, 10, 11, 12, 13, 32, 160 :: nat})"

definition url_char :: "char \<Rightarrow> bool" where
  "url_char c = (\<not> js_whitespace c \<and> c \<notin> {CHR ''<'', CHR ''>'', CHR 0x22, CHR 0x27})"

text \<open>A match that starts at the head of the text: the matched string, and what follows it.\<close>

definition match_url_at :: "string \<Rightarrow> (string \<times> string) option" where
  "match_url_at text =
     (case (case literal_ci ''https://'' text of
              Some r \<Rightarrow> Some r
            | None \<Rightarrow> literal_ci ''http://'' text) of
        None \<Rightarrow> None
      | Some r \<Rightarrow>
          if takeWhile url_char r = [] then None
          else Some (take (length text - length (dropWhile url_char r)) text,
                     dropWhile url_char r))"

lemma literal_ci_length: "literal_ci p s = Some r \<Longrightarrow> length s = length p + length r"
  by (induction p s rule: literal_ci.induct) (auto split: if_splits)

lemma match_url_at_shorter:
  assumes "match_url_at s = Some (m, rest)"
  shows "length rest < length s"
proof -
  from assms obtain r
    where lit: "literal_ci ''https://'' s = Some r \<or> literal_ci ''http://'' s = Some r"
      and rest: "rest = dropWhile url_char r"
    by (auto simp: match_url_at_def split: option.splits if_splits)
  from lit have "length r < length s"
    by (auto dest: literal_ci_length)
  moreover have "length (dropWhile url_char r) \<le> length r"
    by (rule length_dropWhile_le)
  ultimately show ?thesis
    using rest by simp
qed

function extractUrlsFromText :: "string \<Rightarrow> string list" where
  "extractUrlsFromText text =
     (if text = [] then []
      else case match_url_at text of
             Some (m, rest) \<Rightarrow> m # extractUrlsFromText rest
           | None \<Rightarrow> extractUrlsFromText (tl text))"
  by pat_completeness auto
termination
  by (relation "measure length") (auto dest: match_url_at_shorter)

text \<open>Line 140: \<^verbatim>\<open>url.replace(/[.,;)]+$/, "")\<close>.\<close>

definition clean_url :: "string \<Rightarrow> string" where
  "clean_url u =
     rev (dropWhile (\<lambda>c. c \<in> {CHR ''.'', CHR '','', CHR '';'', CHR '')''}) (rev u))"

text \<open>A text node under \<^verbatim>\<open>document.body\<close>: the tag name of its parent element (\<open>None\<close>
  when it has none) and its value. A document: the \<^verbatim>\<open>href\<close> of every element that
  \<^verbatim>\<open>a[href]\<close> selects and the text nodes of the body, both in document order.\<close>

record text_node =
  parentTag :: "string option"
  nodeValue :: string

record document =
  anchors :: "string list"
  textNodes :: "text_node list"

text \<open>Lines 117-127.\<close>

definition acceptNode :: "text_node \<Rightarrow> bool" where
  "acceptNode n =
     (\<not> (parentTag n = Some ''SCRIPT'' \<or> parentTag n = Some ''STYLE''
         \<or> parentTag n = Some ''NOSCRIPT''))"

text \<open>Lines 136-151: the loop over the URLs of one text node.\<close>

fun scan_urls ::
  "'u env \<Rightarrow> regexp list \<Rightarrow> (string \<rightharpoonup> 'u) \<Rightarrow> string list \<Rightarrow>
     string set \<times> 'u detected_link list \<Rightarrow> string set \<times> 'u detected_link list" where
  "scan_urls env patterns cache [] acc = acc"
| "scan_urls env patterns cache (u # us) (seenUrls, detectedLinks) =
     (if u \<in> seenUrls then scan_urls env patterns cache us (seenUrls, detectedLinks)
      else let cleanUrl = clean_url u
           in if matchesHosterPattern env cleanUrl patterns
              then scan_urls env patterns cache us
                     (insert cleanUrl seenUrls,
                      detectedLinks @ [\<lparr> url = cleanUrl, host = extractHost env cleanUrl,
                         type = hoster, unrestrictedLink = cache cleanUrl \<rparr>])
              else scan_urls env patterns cache us (seenUrls, detectedLinks))"

text \<open>Lines 132-152: the loop over the text nodes the walker accepts.\<close>

fun scan_nodes ::
  "'u env \<Rightarrow> regexp list \<Rightarrow> (string \<rightharpoonup> 'u) \<Rightarrow> text_node list \<Rightarrow>
     string set \<times> 'u detected_link list \<Rightarrow> string set \<times> 'u detected_link list" where
  "scan_nodes env patterns cache [] acc = acc"
| "scan_nodes env patterns cache (n # ns) acc =
     (if nodeValue n = [] then scan_nodes env patterns cache ns acc
      else scan_nodes env patterns cache ns
             (scan_urls env patterns cache (extractUrlsFromText (nodeValue n)) acc))"

text \<open>Lines 108-155.\<close>

definition scanTextNodes ::
  "'u env \<Rightarrow> regexp list \<Rightarrow> (string \<rightharpoonup> 'u) \<Rightarrow> document \<Rightarrow> 'u detected_link list" where
  "scanTextNodes env patterns cache doc =
     snd (scan_nodes env patterns cache (filter acceptNode (textNodes doc)) ({}, []))"

text \<open>Lines 170-199: the loop over the anchors.\<close>

fun scan_anchors ::
  "'u env \<Rightarrow> regexp list \<Rightarrow> (string \<rightharpoonup> 'u) \<Rightarrow> string list \<Rightarrow>
     string set \<times> 'u detected_link list \<Rightarrow> string set \<times> 'u detected_link list" where
  "scan_anchors env patterns cache [] acc = acc"
| "scan_anchors env patterns cache (href # hs) (seenUrls, detectedLinks) =
     (if href = [] \<or> prefix ''javascript:'' href \<or> href \<in> seenUrls
      then scan_anchors env patterns cache hs (seenUrls, detectedLinks)
      else if prefix ''magnet:'' href
      then scan_anchors env patterns cache hs
             (insert href seenUrls,
              detectedLinks @ [\<lparr> url = href, host = ''magnet'', type = magnet,
                 unrestrictedLink = None \<rparr>])
      else if matchesHosterPattern env href patterns
      then scan_anchors env patterns cache hs
             (insert href seenUrls,
              detectedLinks @ [\<lparr> url = href, host = extractHost env href, type = hoster,
                 unrestrictedLink = cache href \<rparr>])
      else scan_anchors env patterns cache hs (insert href seenUrls, detectedLinks))"

text \<open>Lines 203-208: the text links join the result unless their URL was seen.\<close>

fun merge_text_links ::
  "'u detected_link list \<Rightarrow> string set \<times> 'u detected_link list \<Rightarrow>
     string set \<times> 'u detected_link list" where
  "merge_text_links [] acc = acc"
| "merge_text_links (link # ls) (seenUrls, detectedLinks) =
     (if url link \<notin> seenUrls
      then merge_text_links ls (insert (url link) seenUrls, detectedLinks @ [link])
      else merge_text_links ls (seenUrls, detectedLinks))"

text \<open>Lines 160-211. The result is the list the promise resolves to, and the new state.\<close>

definition scanPageForLinks ::
  "'u env \<Rightarrow> document \<Rightarrow> int \<Rightarrow> 'u state \<Rightarrow> 'u detected_link list \<times> 'u state" where
  "scanPageForLinks env doc now st =
     (let (hostsRegex, st1) = getHostsRegex env now st;
          acc = scan_anchors env hostsRegex (unrestrictedCache st1) (anchors doc) ({}, []);
          textLinks = scanTextNodes env hostsRegex (unrestrictedCache st1) doc
      in (snd (merge_text_links textLinks acc), st1))"

section \<open>Preferences and reporting\<close>

text \<open>The \<^verbatim>\<open>preferences\<close> record of \<^verbatim>\<open>chrome.storage.sync\<close>: each field may be absent, and so
  may the record.\<close>

record stored_preferences =
  stored_autoScanEnabled :: "bool option"
  stored_autoUnrestrict :: "bool option"

record preferences =
  autoScanEnabled :: bool
  autoUnrestrict :: bool

text \<open>Lines 245-256.\<close>

definition getPreferences :: "stored_preferences option \<Rightarrow> preferences" where
  "getPreferences result =
     (case result of
        None \<Rightarrow> \<lparr> autoScanEnabled = True, autoUnrestrict = True \<rparr>
      | Some prefs \<Rightarrow>
          \<lparr> autoScanEnabled = (stored_autoScanEnabled prefs \<noteq> Some False),
            autoUnrestrict = (stored_autoUnrestrict prefs \<noteq> Some False) \<rparr>)"

text \<open>Lines 261-271.\<close>

definition reportLinksToBackground :: "'u detected_link list \<Rightarrow> 'u state \<Rightarrow> 'u state" where
  "reportLinksToBackground links st = send (REPORT_DETECTED_LINKS links) st"

section \<open>Auto-unrestrict\<close>

text \<open>
  Line 277. \<^verbatim>\<open>filter\<close> keeps the objects of \<^verbatim>\<open>links\<close>, and the loop writes to them: an
  object is its position in \<^verbatim>\<open>links\<close>, and \<^verbatim>\<open>hosterLinks\<close> the positions of the hoster links.
\<close>

definition hosterLinks :: "'u detected_link list \<Rightarrow> nat list" where
  "hosterLinks links = filter (\<lambda>i. type (links ! i) = hoster) [0..<length links]"

text \<open>Lines 282-289, up to the \<^verbatim>\<open>await\<close>: \<open>None\<close> when the link is skipped, otherwise the
  state in which the call is in flight.\<close>

definition submit :: "string \<Rightarrow> 'u state \<Rightarrow> 'u state option" where
  "submit u st =
     (if u \<in> processedLinks st then None
      else Some (send (UNRESTRICT_LINK u) (st\<lparr> processedLinks := insert u (processedLinks st) \<rparr>)))"

text \<open>Lines 291-298, after the \<^verbatim>\<open>await\<close>: a rejection is caught and logged to the console.\<close>

definition settle ::
  "'u unrestrict_reply \<Rightarrow> nat \<Rightarrow> 'u detected_link list \<times> bool \<times> 'u state \<Rightarrow>
     'u detected_link list \<times> bool \<times> 'u state" where
  "settle reply i c =
     (case c of (links, hasNewUnrestrictions, st) \<Rightarrow>
        (case reply of
           Rejected \<Rightarrow> (links, hasNewUnrestrictions, st)
         | Resolved ok d \<Rightarrow>
             (case (if ok then d else None) of
                None \<Rightarrow> (links, hasNewUnrestrictions, st)
              | Some v \<Rightarrow>
                  (links[i := (links ! i)\<lparr> unrestrictedLink := Some v \<rparr>], True,
                   st\<lparr> unrestrictedCache := (unrestrictedCache st)(url (links ! i) \<mapsto> v) \<rparr>))))"

text \<open>Lines 280-299.\<close>

fun unrestrict_loop ::
  "'u env \<Rightarrow> nat list \<Rightarrow> 'u detected_link list \<times> bool \<times> 'u state \<Rightarrow>
     'u detected_link list \<times> bool \<times> 'u state" where
  "unrestrict_loop env [] c = c"
| "unrestrict_loop env (i # is) (links, hasNewUnrestrictions, st) =
     (case submit (url (links ! i)) st of
        None \<Rightarrow> unrestrict_loop env is (links, hasNewUnrestrictions, st)
      | Some st1 \<Rightarrow>
          unrestrict_loop env is
            (settle (unrestrict_reply env (sent st1)) i (links, hasNewUnrestrictions, st1)))"

text \<open>Lines 276-305. The result is \<^verbatim>\<open>links\<close> as the loop leaves it, and the new state.\<close>

definition autoUnrestrictLinks ::
  "'u env \<Rightarrow> 'u detected_link list \<Rightarrow> 'u state \<Rightarrow> 'u detected_link list \<times> 'u state" where
  "autoUnrestrictLinks env links st =
     (case unrestrict_loop env (hosterLinks links) (links, False, st) of
        (links', hasNewUnrestrictions, st') \<Rightarrow>
          (links', if hasNewUnrestrictions then reportLinksToBackground links' st' else st'))"

section \<open>Scheduling\<close>

text \<open>Lines 310-337. Nothing in the body throws, so the \<^verbatim>\<open>catch\<close> has no branch here.\<close>

definition performAutoScan ::
  "'u env \<Rightarrow> stored_preferences option \<Rightarrow> document \<Rightarrow> int \<Rightarrow> 'u state \<Rightarrow> 'u state" where
  "performAutoScan env stored doc now st =
     (if isScanning st then st
      else let st0 = st\<lparr> isScanning := True \<rparr>;
               prefs = getPreferences stored
           in if \<not> autoScanEnabled prefs then st0\<lparr> isScanning := False \<rparr>
              else let (links, st1) = scanPageForLinks env doc now st0;
                       st2 = (if links \<noteq> []
                              then let st3 = reportLinksToBackground links st1
                                   in if autoUnrestrict prefs
                                      then snd (autoUnrestrictLinks env links st3)
                                      else st3
                              else st1)
                   in st2\<lparr> isScanning := False \<rparr>)"

text \<open>The host's timers.\<close>

definition clearTimeout :: "nat \<Rightarrow> 'u state \<Rightarrow> 'u state" where
  "clearTimeout h st = st\<lparr> timers := filter (\<lambda>t. fst t \<noteq> h) (timers st) \<rparr>"

definition setTimeout :: "int \<Rightarrow> int \<Rightarrow> 'u state \<Rightarrow> nat \<times> 'u state" where
  "setTimeout now delay st =
     (next_timer st,
      st\<lparr> timers := timers st @ [(next_timer st, now + delay)],
          next_timer := Suc (next_timer st) \<rparr>)"

text \<open>Lines 342-349.\<close>

definition triggerScan :: "int \<Rightarrow> 'u state \<Rightarrow> 'u state" where
  "triggerScan now st =
     (let st1 = (case scanTimeout st of Some h \<Rightarrow> clearTimeout h st | None \<Rightarrow> st);
          (h, st2) = setTimeout now SCAN_DEBOUNCE_MS st1
      in st2\<lparr> scanTimeout := Some h \<rparr>)"

text \<open>Lines 346-348, the callback of the timer; the time of the call is noted in \<open>scans\<close>.\<close>

definition timer_callback ::
  "'u env \<Rightarrow> stored_preferences option \<Rightarrow> document \<Rightarrow> int \<Rightarrow> 'u state \<Rightarrow> 'u state" where
  "timer_callback env stored doc now st =
     performAutoScan env stored doc now (st\<lparr> scans := scans st @ [now] \<rparr>)"

text \<open>A turn of the event loop at time \<open>now\<close>: every timeout that is due leaves the table and
  its callback runs.\<close>

definition run_timers ::
  "'u env \<Rightarrow> stored_preferences option \<Rightarrow> document \<Rightarrow> int \<Rightarrow> 'u state \<Rightarrow> 'u state" where
  "run_timers env stored doc now st =
     fold (\<lambda>t. timer_callback env stored doc now)
       (filter (\<lambda>t. snd t \<le> now) (timers st))
       (st\<lparr> timers := filter (\<lambda>t. \<not> snd t \<le> now) (timers st) \<rparr>)"

text \<open>Lines 363-376, the callback of the observer: \<open>mutations\<close> holds
  \<^verbatim>\<open>addedNodes.length\<close> of each record.\<close>

definition observer_callback :: "nat list \<Rightarrow> int \<Rightarrow> 'u state \<Rightarrow> 'u state" where
  "observer_callback mutations now st =
     (if list_ex (\<lambda>n. n > 0) mutations then triggerScan now st else st)"

text \<open>
  Lines 354-394. The initial scan is started and not awaited; it touches neither the observer
  nor the timer, so it is run to its end before the observer is looked at.
\<close>

definition initAutoScan ::
  "'u env \<Rightarrow> stored_preferences option \<Rightarrow> document \<Rightarrow> int \<Rightarrow> 'u state \<Rightarrow> 'u state" where
  "initAutoScan env stored doc now st =
     (if autoScanEnabled (getPreferences stored)
      then let st1 = performAutoScan env stored doc now st
           in (case observer st1 of
                 None \<Rightarrow>
                   st1\<lparr> observer := Some (next_observer st1),
                        observing := observing st1 @ [next_observer st1],
                        next_observer := Suc (next_observer st1) \<rparr>
               | Some ob \<Rightarrow> st1)
      else let st1 = (case observer st of
                        Some ob \<Rightarrow> st\<lparr> observing := removeAll ob (observing st),
                                       observer := None \<rparr>
                      | None \<Rightarrow> st)
           in (case scanTimeout st1 of
                 Some h \<Rightarrow> (clearTimeout h st1)\<lparr> scanTimeout := None \<rparr>
               | None \<Rightarrow> st1))"

text \<open>Lines 216-240, the listener for \<^verbatim>\<open>SCAN_PAGE_LINKS\<close>: the links of the response, and the
  new state. The scan has no failing branch, so neither has the listener.\<close>

definition onScanPageLinks ::
  "'u env \<Rightarrow> document \<Rightarrow> int \<Rightarrow> 'u state \<Rightarrow> 'u detected_link list \<times> 'u state" where
  "onScanPageLinks env doc now st =
     (let (links, st1) = scanPageForLinks env doc now st
      in (links, reportLinksToBackground links st1))"

text \<open>
  What happens to the script: it is loaded (line 406), the storage changes (lines 399-403,
  with the area and whether \<^verbatim>\<open>changes.preferences\<close> is set), the document changes and every
  connected observer is called, the event loop runs the timers, the popup asks for a scan.
  Each comes with the time, the stored preferences and the document of that moment.
\<close>

datatype event =
    Loaded
  | StorageChanged string bool
  | Mutated "nat list"
  | TimersRun
  | ScanRequested

record moment =
  at :: int
  storage :: "stored_preferences option"
  page :: document

definition step :: "'u env \<Rightarrow> moment \<times> event \<Rightarrow> 'u state \<Rightarrow> 'u state" where
  "step env me st =
     (case me of (m, e) \<Rightarrow>
        (case e of
           Loaded \<Rightarrow> initAutoScan env (storage m) (page m) (at m) st
         | StorageChanged areaName preferences_changed \<Rightarrow>
             if areaName = ''sync'' \<and> preferences_changed
             then initAutoScan env (storage m) (page m) (at m) st
             else st
         | Mutated mutations \<Rightarrow>
             fold (\<lambda>ob. observer_callback mutations (at m)) (observing st) st
         | TimersRun \<Rightarrow> run_timers env (storage m) (page m) (at m) st
         | ScanRequested \<Rightarrow> snd (onScanPageLinks env (page m) (at m) st)))"

definition run :: "'u env \<Rightarrow> (moment \<times> event) list \<Rightarrow> 'u state \<Rightarrow> 'u state" where
  "run env evs st = fold (step env) evs st"

section \<open>Notions the properties are stated with\<close>

text \<open>The link the anchor loop pushes for a magnet URL (lines 182-186).\<close>

definition magnet_link :: "string \<Rightarrow> 'u detected_link" where
  "magnet_link href = \<lparr> url = href, host = ''magnet'', type = magnet, unrestrictedLink = None \<rparr>"







text \<open>The URLs submitted to the unrestrict service and the lists reported, as the record of
  sent messages shows them.\<close>

definition submitted :: "'u message \<Rightarrow> string list" where
  "submitted m = (case m of UNRESTRICT_LINK u \<Rightarrow> [u] | _ \<Rightarrow> [])"

definition unrestrict_calls :: "'u message list \<Rightarrow> string list" where
  "unrestrict_calls ms = concat (map submitted ms)"

definition report_of :: "'u message \<Rightarrow> 'u detected_link list list" where
  "report_of m = (case m of REPORT_DETECTED_LINKS ls \<Rightarrow> [ls] | _ \<Rightarrow> [])"

definition reports :: "'u message list \<Rightarrow> 'u detected_link list list" where
  "reports ms = concat (map report_of ms)"

text \<open>The URLs of a list that a set does not hold yet, each at its first occurrence: the
  calls a pass over links with these URLs issues when the set is \<^verbatim>\<open>processedLinks\<close>.\<close>

fun fresh :: "string set \<Rightarrow> string list \<Rightarrow> string list" where
  "fresh P [] = []"
| "fresh P (u # us) = (if u \<in> P then fresh P us else u # fresh (insert u P) us)"

text \<open>A reply that gives the link no result: a rejection, no success, or no data.\<close>

definition failed :: "'u unrestrict_reply \<Rightarrow> bool" where
  "failed r = (case r of Rejected \<Rightarrow> True | Resolved ok d \<Rightarrow> \<not> ok \<or> d = None)"

text \<open>The URLs of the hoster links of a list, in order.\<close>

definition hoster_urls :: "'u detected_link list \<Rightarrow> string list" where
  "hoster_urls links = map url (filter (\<lambda>l. type l = hoster) links)"

text \<open>Every hoster link carries the cached result of its URL.\<close>

definition enriched :: "(string \<rightharpoonup> 'u) \<Rightarrow> 'u detected_link list \<Rightarrow> bool" where
  "enriched c found = (\<forall>l \<in> set found. type l = hoster \<longrightarrow> unrestrictedLink l = c (url l))"

text \<open>Some link had no result before the pass and has one after it.\<close>

definition gained :: "'u detected_link list \<Rightarrow> 'u detected_link list \<Rightarrow> bool" where
  "gained links links' =
     (\<exists>i < length links. unrestrictedLink (links ! i) = None \<and> unrestrictedLink (links' ! i) \<noteq> None)"

text \<open>The fields the scheduler owns, and the ones a scan and the unrestrict pass work on.\<close>

definition schedule ::
  "'u state \<Rightarrow>
     nat option \<times> nat option \<times> (nat \<times> int) list \<times> nat \<times> nat list \<times> nat \<times> int list" where
  "schedule st = (scanTimeout st, observer st, timers st, next_timer st, observing st,
     next_observer st, scans st)"

definition worker ::
  "'u state \<Rightarrow> bool \<times> string set \<times> (string \<rightharpoonup> 'u) \<times> 'u message list" where
  "worker st = (isScanning st, processedLinks st, unrestrictedCache st, sent st)"

text \<open>No URL was submitted twice, and every URL submitted is in \<^verbatim>\<open>processedLinks\<close>.\<close>

definition once :: "'u state \<Rightarrow> bool" where
  "once st = (distinct (unrestrict_calls (sent st))
     \<and> set (unrestrict_calls (sent st)) \<subseteq> processedLinks st)"

text \<open>What holds between events: no scan is running, every cached result belongs to a
  processed URL, and no URL was submitted twice.\<close>

definition worker_inv :: "'u state \<Rightarrow> bool" where
  "worker_inv st = (\<not> isScanning st \<and> dom (unrestrictedCache st) \<subseteq> processedLinks st \<and> once st)"

text \<open>The observers connected are exactly the one the module refers to, and the only timeout
  that can be pending is the one \<^verbatim>\<open>scanTimeout\<close> refers to.\<close>

definition sched_inv :: "'u state \<Rightarrow> bool" where
  "sched_inv st =
     (observing st = (case observer st of None \<Rightarrow> [] | Some ob \<Rightarrow> [ob])
      \<and> (timers st = [] \<or> (\<exists>h d. timers st = [(h, d)] \<and> scanTimeout st = Some h)))"



section \<open>Example environments\<close>

text \<open>A background script that answers the first message with one pattern and every later
  fetch with a batch whose second pattern does not compile, and an unrestrict service that
  succeeds for the call sent as third message only.\<close>

definition demo_env :: "nat env" where
  "demo_env =
     \<lparr> regexp_compiles = (\<lambda>s. s \<noteq> ''(''),
       regexp_test = (\<lambda>s u. prefix ''https://host-a.example/'' u),
       url_hostname = (\<lambda>u. if prefix ''https://host-a.example/'' u
                               then Some ''host-a.example'' else None),
       hosts_regex_reply = (\<lambda>ms.
          if length ms = 1
          then \<lparr> lastError = False,
                 response = Some \<lparr> success = True, data = Some [''/host-a.example/''] \<rparr> \<rparr>
          else \<lparr> lastError = False,
                 response = Some \<lparr> success = True, data = Some [''/host-a/'', ''(''] \<rparr> \<rparr>),
       unrestrict_reply = (\<lambda>ms. if length ms = 3 then Resolved True (Some 7) else Rejected) \<rparr>"

text \<open>The same, with a background script that cannot be reached.\<close>

definition failing_env :: "nat env" where
  "failing_env = demo_env\<lparr> hosts_regex_reply := (\<lambda>ms. \<lparr> lastError = True, response = None \<rparr>) \<rparr>"

text \<open>A page with one hoster URL in an anchor and twice in its text, and a magnet link.\<close>

definition demo_doc :: document where
  "demo_doc =
     \<lparr> anchors = [''https://host-a.example/f'', ''magnet:?xt=abc''],
       textNodes = [\<lparr> parentTag = Some ''P'',
                      nodeValue = ''see https://host-a.example/f, or https://host-a.example/f.'' \<rparr>] \<rparr>"

text \<open>An unrestrict service that fails for every URL but one, and two hoster links.\<close>

definition flaky_env :: "nat env" where
  "flaky_env = demo_env\<lparr> unrestrict_reply := (\<lambda>ms.
      if last ms = UNRESTRICT_LINK ''https://host-a.example/2''
      then Resolved True (Some 7) else Rejected) \<rparr>"

definition two_links :: "nat detected_link list" where
  "two_links =
     [\<lparr> url = ''https://host-a.example/1'', host = ''host-a.example'', type = hoster,
         unrestrictedLink = None \<rparr>,
      \<lparr> url = ''https://host-a.example/2'', host = ''host-a.example'', type = hoster,
         unrestrictedLink = None \<rparr>]"

text \<open>A page without links; a load and a change of the document; preferences with auto-scan
  switched off; a burst of changes within one second.\<close>

definition blank_doc :: document where
  "blank_doc = \<lparr> anchors = [], textNodes = [] \<rparr>"

definition demo_events :: "(moment \<times> event) list" where
  "demo_events =
     [(\<lparr> at = 0, storage = None, page = blank_doc \<rparr>, Loaded),
      (\<lparr> at = 10, storage = None, page = blank_doc \<rparr>, Mutated [0, 2])]"

definition scan_disabled :: "stored_preferences option" where
  "scan_disabled = Some \<lparr> stored_autoScanEnabled = Some False, stored_autoUnrestrict = None \<rparr>"



text \<open>Background scripts whose answer to the fetch is an error: \<^verbatim>\<open>lastError\<close> set although
  the response carries patterns, no success, no data, no response.\<close>

definition unreachable_env :: "nat env" where
  "unreachable_env = demo_env\<lparr> hosts_regex_reply := (\<lambda>ms.
      \<lparr> lastError = True,
        response = Some \<lparr> success = True, data = Some [''/host-a.example/''] \<rparr> \<rparr>) \<rparr>"

definition refusing_env :: "nat env" where
  "refusing_env = demo_env\<lparr> hosts_regex_reply := (\<lambda>ms.
      \<lparr> lastError = False,
        response = Some \<lparr> success = False, data = Some [''/host-a.example/''] \<rparr> \<rparr>) \<rparr>"

definition nodata_env :: "nat env" where
  "nodata_env = demo_env\<lparr> hosts_regex_reply := (\<lambda>ms.
      \<lparr> lastError = False, response = Some \<lparr> success = True, data = None \<rparr> \<rparr>) \<rparr>"

definition silent_env :: "nat env" where
  "silent_env = demo_env\<lparr> hosts_regex_reply := (\<lambda>ms. \<lparr> lastError = False, response = None \<rparr>) \<rparr>"






section \<open>Properties of the pattern cache\<close>

lemma compile_all_cases:
  "compile_all env ps =
     (if \<forall>p \<in> set ps. regexp_compiles env (strip_delimiters p)
      then Inr (map (\<lambda>p. RegExp (strip_delimiters p)) ps) else Inl SyntaxError)"
  by (induction ps) (auto simp: compile_def Let_def)

lemma fetchHostsRegex_eq:
  "fetchHostsRegex env now st =
     (case response_data (hosts_regex_reply env (sent st @ [GET_HOSTS_REGEX])) of
        None \<Rightarrow> ([], send GET_HOSTS_REGEX st)
      | Some ps \<Rightarrow>
          if \<forall>p \<in> set ps. regexp_compiles env (strip_delimiters p)
          then (map (\<lambda>p. RegExp (strip_delimiters p)) ps,
                (send GET_HOSTS_REGEX st)\<lparr>
                   cachedHostsRegex := Some (map (\<lambda>p. RegExp (strip_delimiters p)) ps),
                   cachedHostsRegexTimestamp := now \<rparr>)
          else ([], send GET_HOSTS_REGEX st))"
  by (simp add: fetchHostsRegex_def hosts_callback_body_def Let_def send_def compile_all_cases
      split: option.splits)

lemma sent_fetchHostsRegex:
  "sent (snd (fetchHostsRegex env now st)) = sent st @ [GET_HOSTS_REGEX]"
  by (simp add: fetchHostsRegex_eq send_def split: option.splits)

lemma demo_fetch:
  "fetchHostsRegex demo_env 1000 initial =
     ([RegExp ''host-a.example''],
      initial\<lparr> cachedHostsRegex := Some [RegExp ''host-a.example''],
         cachedHostsRegexTimestamp := 1000, sent := [GET_HOSTS_REGEX] \<rparr>)"
  by (simp add: fetchHostsRegex_eq initial_def send_def demo_env_def response_data_def
      strip_delimiters_def suffix_to_prefix)

text \<open>
  C2. \<^verbatim>\<open>getHostsRegex\<close> always resolves to a list. With a fresh cache entry it is the cached
  list. Otherwise the background script is asked, and the list is empty when
  \<^verbatim>\<open>lastError\<close> is set (whatever the response carries), when there is no response, when the
  response is not a success, when it has no data, and when one pattern of the batch does not
  compile; a successful answer whose patterns all compile gives the compiled patterns.
\<close>

theorem getHostsRegex_never_fails:
  assumes "cb = hosts_regex_reply env (sent st @ [GET_HOSTS_REGEX])"
  shows "(cachedHostsRegex st = Some rs \<and> now - cachedHostsRegexTimestamp st < CACHE_TTL
      \<longrightarrow> fst (getHostsRegex env now st) = rs)
   \<and> (cachedHostsRegex st = None \<or> CACHE_TTL \<le> now - cachedHostsRegexTimestamp st \<longrightarrow>
        (lastError cb \<longrightarrow> fst (getHostsRegex env now st) = [])
      \<and> (response cb = None \<longrightarrow> fst (getHostsRegex env now st) = [])
      \<and> (\<forall>r. response cb = Some r \<and> \<not> success r \<longrightarrow> fst (getHostsRegex env now st) = [])
      \<and> (\<forall>r. response cb = Some r \<and> data r = None \<longrightarrow> fst (getHostsRegex env now st) = [])
      \<and> (\<forall>r ps. \<not> lastError cb \<and> response cb = Some r \<and> success r \<and> data r = Some ps \<longrightarrow>
            (\<forall>p. p \<in> set ps \<and> \<not> regexp_compiles env (strip_delimiters p)
               \<longrightarrow> fst (getHostsRegex env now st) = [])
          \<and> ((\<forall>p \<in> set ps. regexp_compiles env (strip_delimiters p))
               \<longrightarrow> fst (getHostsRegex env now st) = map (\<lambda>p. RegExp (strip_delimiters p)) ps)))"
  using assms
  by (auto simp: getHostsRegex_def fetchHostsRegex_eq response_data_def split: option.splits)

theorem getHostsRegex_never_fails_witness:
  "cachedHostsRegex (initial :: nat state) = None
   \<and> lastError (hosts_regex_reply unreachable_env (sent (initial :: nat state) @ [GET_HOSTS_REGEX]))
   \<and> data (the (response (hosts_regex_reply unreachable_env
          (sent (initial :: nat state) @ [GET_HOSTS_REGEX])))) = Some [''/host-a.example/'']
   \<and> fst (getHostsRegex unreachable_env 0 initial) = []
   \<and> response (hosts_regex_reply silent_env (sent (initial :: nat state) @ [GET_HOSTS_REGEX])) = None
   \<and> fst (getHostsRegex silent_env 0 initial) = []
   \<and> response (hosts_regex_reply refusing_env (sent (initial :: nat state) @ [GET_HOSTS_REGEX]))
       = Some \<lparr> success = False, data = Some [''/host-a.example/''] \<rparr>
   \<and> fst (getHostsRegex refusing_env 0 initial) = []
   \<and> response (hosts_regex_reply nodata_env (sent (initial :: nat state) @ [GET_HOSTS_REGEX]))
       = Some \<lparr> success = True, data = None \<rparr>
   \<and> fst (getHostsRegex nodata_env 0 initial) = []
   \<and> response (hosts_regex_reply demo_env
          (sent (send GET_HOSTS_REGEX (initial :: nat state)) @ [GET_HOSTS_REGEX]))
       = Some \<lparr> success = True, data = Some [''/host-a/'', ''(''] \<rparr>
   \<and> \<not> regexp_compiles demo_env (strip_delimiters ''('')
   \<and> fst (getHostsRegex demo_env 0 (send GET_HOSTS_REGEX initial)) = []
   \<and> fst (getHostsRegex demo_env 0 initial) = [RegExp ''host-a.example'']"
proof -
  have c: "cachedHostsRegex (initial :: nat state) = None"
    "cachedHostsRegex (send GET_HOSTS_REGEX (initial :: nat state)) = None"
    by (simp_all add: initial_def send_def)
  have u: "lastError (hosts_regex_reply unreachable_env (sent (initial :: nat state) @ [GET_HOSTS_REGEX]))"
    "data (the (response (hosts_regex_reply unreachable_env
          (sent (initial :: nat state) @ [GET_HOSTS_REGEX])))) = Some [''/host-a.example/'']"
    by (simp_all add: unreachable_env_def)
  have s: "response (hosts_regex_reply silent_env (sent (initial :: nat state) @ [GET_HOSTS_REGEX]))
      = None"
    by (simp add: silent_env_def)
  have r: "response (hosts_regex_reply refusing_env (sent (initial :: nat state) @ [GET_HOSTS_REGEX]))
       = Some \<lparr> success = False, data = Some [''/host-a.example/''] \<rparr>"
    by (simp add: refusing_env_def)
  have n: "response (hosts_regex_reply nodata_env (sent (initial :: nat state) @ [GET_HOSTS_REGEX]))
       = Some \<lparr> success = True, data = None \<rparr>"
    by (simp add: nodata_env_def)
  have b: "response (hosts_regex_reply demo_env
          (sent (send GET_HOSTS_REGEX (initial :: nat state)) @ [GET_HOSTS_REGEX]))
       = Some \<lparr> success = True, data = Some [''/host-a/'', ''(''] \<rparr>"
    "\<not> lastError (hosts_regex_reply demo_env
          (sent (send GET_HOSTS_REGEX (initial :: nat state)) @ [GET_HOSTS_REGEX]))"
    "\<not> regexp_compiles demo_env (strip_delimiters ''('')"
    by (simp_all add: demo_env_def initial_def send_def strip_delimiters_def)
  have g: "response (hosts_regex_reply demo_env (sent (initial :: nat state) @ [GET_HOSTS_REGEX]))
       = Some \<lparr> success = True, data = Some [''/host-a.example/''] \<rparr>"
    "\<not> lastError (hosts_regex_reply demo_env (sent (initial :: nat state) @ [GET_HOSTS_REGEX]))"
    "\<forall>p \<in> set [''/host-a.example/'']. regexp_compiles demo_env (strip_delimiters p)"
    "map (\<lambda>p. RegExp (strip_delimiters p)) [''/host-a.example/''] = [RegExp ''host-a.example'']"
    by (simp_all add: demo_env_def initial_def strip_delimiters_def suffix_to_prefix)
  have 1: "fst (getHostsRegex unreachable_env 0 initial) = []"
    using getHostsRegex_never_fails [OF refl, of initial "[]" 0 unreachable_env] c u by blast
  have 2: "fst (getHostsRegex silent_env 0 initial) = []"
    using getHostsRegex_never_fails [OF refl, of initial "[]" 0 silent_env] c s by blast
  have 3: "fst (getHostsRegex refusing_env 0 initial) = []"
    using getHostsRegex_never_fails [OF refl, of initial "[]" 0 refusing_env] c r by simp
  have 4: "fst (getHostsRegex nodata_env 0 initial) = []"
    using getHostsRegex_never_fails [OF refl, of initial "[]" 0 nodata_env] c n by simp
  have 5: "fst (getHostsRegex demo_env 0 (send GET_HOSTS_REGEX initial)) = []"
    using getHostsRegex_never_fails [OF refl, of "send GET_HOSTS_REGEX initial" "[]" 0 demo_env]
      c b by auto
  have 6: "fst (getHostsRegex demo_env 0 initial) = [RegExp ''host-a.example'']"
    using getHostsRegex_never_fails [OF refl, of initial "[]" 0 demo_env] c g by simp
  show ?thesis
    using c u s r n b 1 2 3 4 5 6 by simp
qed

text \<open>
  C3. With a cache entry recorded at time \<open>T\<close>, the call at \<open>T + CACHE_TTL - 1\<close> returns the
  cached list and leaves the state as it is, so nothing is sent; the call at
  \<open>T + CACHE_TTL + 1\<close> sends \<^verbatim>\<open>GET_HOSTS_REGEX\<close>. The time to live is five minutes.
\<close>

theorem ttl_expiry:
  assumes "cachedHostsRegex st = Some rs" and "cachedHostsRegexTimestamp st = T"
  shows "CACHE_TTL = 300000
    \<and> getHostsRegex env (T + CACHE_TTL - 1) st = (rs, st)
    \<and> sent (snd (getHostsRegex env (T + CACHE_TTL + 1) st)) = sent st @ [GET_HOSTS_REGEX]"
  using assms by (simp add: getHostsRegex_def sent_fetchHostsRegex) (simp add: CACHE_TTL_def)

theorem ttl_expiry_witness:
  "cachedHostsRegex (snd (fetchHostsRegex demo_env 1000 initial)) = Some [RegExp ''host-a.example'']
   \<and> cachedHostsRegexTimestamp (snd (fetchHostsRegex demo_env 1000 initial)) = 1000
   \<and> fst (getHostsRegex demo_env 300999 (snd (fetchHostsRegex demo_env 1000 initial)))
       = [RegExp ''host-a.example'']
   \<and> sent (snd (getHostsRegex demo_env 300999 (snd (fetchHostsRegex demo_env 1000 initial))))
       = [GET_HOSTS_REGEX]
   \<and> sent (snd (getHostsRegex demo_env 301001 (snd (fetchHostsRegex demo_env 1000 initial))))
       = [GET_HOSTS_REGEX, GET_HOSTS_REGEX]"
  using ttl_expiry [of "snd (fetchHostsRegex demo_env 1000 initial)"
      "[RegExp ''host-a.example'']" 1000 demo_env]
  by (simp add: demo_fetch CACHE_TTL_def)

text \<open>
  C10. When a refresh fails (the cache is empty or stale, and the answer is an error or holds
  a pattern that does not compile), the call resolves to the empty list and the state changes
  in the record of sent messages only: the cached list and its timestamp are as before. The
  next call, at the same time or later, sends \<^verbatim>\<open>GET_HOSTS_REGEX\<close> again.
\<close>

theorem failed_refresh_keeps_cache:
  assumes stale: "cachedHostsRegex st = None \<or> CACHE_TTL \<le> now - cachedHostsRegexTimestamp st"
    and failed: "case response_data (hosts_regex_reply env (sent st @ [GET_HOSTS_REGEX])) of
                   None \<Rightarrow> True
                 | Some ps \<Rightarrow> \<exists>p \<in> set ps. \<not> regexp_compiles env (strip_delimiters p)"
    and later: "now \<le> now'"
  shows "getHostsRegex env now st = ([], send GET_HOSTS_REGEX st)
    \<and> cachedHostsRegex (snd (getHostsRegex env now st)) = cachedHostsRegex st
    \<and> cachedHostsRegexTimestamp (snd (getHostsRegex env now st)) = cachedHostsRegexTimestamp st
    \<and> sent (snd (getHostsRegex env' now' (snd (getHostsRegex env now st))))
        = sent st @ [GET_HOSTS_REGEX, GET_HOSTS_REGEX]"
proof -
  have first: "getHostsRegex env now st = ([], send GET_HOSTS_REGEX st)"
    using stale failed
    by (auto simp: getHostsRegex_def fetchHostsRegex_eq split: option.splits)
  have stale': "cachedHostsRegex st = None \<or> CACHE_TTL \<le> now' - cachedHostsRegexTimestamp st"
    using stale later by auto
  have "getHostsRegex env' now' (send GET_HOSTS_REGEX st)
          = fetchHostsRegex env' now' (send GET_HOSTS_REGEX st)"
    using stale' by (auto simp: getHostsRegex_def send_def split: option.splits)
  then have "sent (snd (getHostsRegex env' now' (send GET_HOSTS_REGEX st)))
          = sent st @ [GET_HOSTS_REGEX, GET_HOSTS_REGEX]"
    by (simp add: sent_fetchHostsRegex send_def)
  with first show ?thesis
    by (simp add: send_def)
qed

theorem failed_refresh_keeps_cache_witness:
  "CACHE_TTL \<le> 400000 - cachedHostsRegexTimestamp (snd (fetchHostsRegex demo_env 1000 initial))
   \<and> response_data (hosts_regex_reply failing_env
        (sent (snd (fetchHostsRegex demo_env 1000 initial)) @ [GET_HOSTS_REGEX])) = None
   \<and> (400000 :: int) \<le> 400001
   \<and> fst (getHostsRegex failing_env 400000 (snd (fetchHostsRegex demo_env 1000 initial))) = []
   \<and> cachedHostsRegex
        (snd (getHostsRegex failing_env 400000 (snd (fetchHostsRegex demo_env 1000 initial))))
       = Some [RegExp ''host-a.example'']
   \<and> cachedHostsRegexTimestamp
        (snd (getHostsRegex failing_env 400000 (snd (fetchHostsRegex demo_env 1000 initial))))
       = 1000
   \<and> sent (snd (getHostsRegex failing_env 400001
        (snd (getHostsRegex failing_env 400000 (snd (fetchHostsRegex demo_env 1000 initial))))))
       = [GET_HOSTS_REGEX, GET_HOSTS_REGEX, GET_HOSTS_REGEX]"
  using failed_refresh_keeps_cache [of "snd (fetchHostsRegex demo_env 1000 initial)" 400000
      failing_env 400001 failing_env]
  by (auto simp: demo_fetch CACHE_TTL_def failing_env_def response_data_def send_def)

section \<open>Properties of a scan\<close>

lemma scan_anchors_seen:
  "fst (scan_anchors env ps c hs (seen, found)) =
     seen \<union> {h \<in> set hs. h \<noteq> [] \<and> \<not> prefix ''javascript:'' h}"
  by (induction hs arbitrary: seen found) auto





lemma scan_anchors_filter_seen:
  "u \<in> seen \<Longrightarrow>
     filter (\<lambda>l. url l = u) (snd (scan_anchors env ps c hs (seen, found))) =
     filter (\<lambda>l. url l = u) found"
  by (induction hs arbitrary: seen found) auto

lemma scan_anchors_magnet:
  "u \<in> set hs \<Longrightarrow> prefix ''magnet:'' u \<Longrightarrow> u \<notin> seen \<Longrightarrow>
     filter (\<lambda>l. url l = u) (snd (scan_anchors env ps c hs (seen, found))) =
     filter (\<lambda>l. url l = u) found @ [magnet_link u]"
proof (induction hs arbitrary: seen found)
  case Nil
  then show ?case by simp
next
  case (Cons h hs)
  have nj: "u \<noteq> []" "\<not> prefix ''javascript:'' u"
    using Cons.prems(2) by (auto simp: prefix_def)
  show ?case
  proof (cases "h = u")
    case True
    then show ?thesis
      using Cons.prems nj by (simp add: scan_anchors_filter_seen magnet_link_def)
  next
    case False
    then show ?thesis
      using Cons.prems Cons.IH by auto
  qed
qed



lemma merge_filter_seen:
  "u \<in> seen \<Longrightarrow>
     filter (\<lambda>l. url l = u) (snd (merge_text_links ls (seen, found))) =
     filter (\<lambda>l. url l = u) found"
  by (induction ls arbitrary: seen found) auto



















text \<open>
  C7. For an anchor whose link target begins with \<^verbatim>\<open>magnet:\<close>, the scan reports exactly one
  link with that URL, and it has type \<open>magnet\<close> and host \<^verbatim>\<open>magnet\<close>, whatever the
  environment and the state, hence whatever patterns the cache or the background script give.
\<close>

theorem magnet_classification:
  assumes "href \<in> set (anchors doc)" and "prefix ''magnet:'' href"
  shows "filter (\<lambda>l. url l = href) (fst (scanPageForLinks env doc now st)) =
     [\<lparr> url = href, host = ''magnet'', type = magnet, unrestrictedLink = None \<rparr>]"
proof -
  obtain ps st1 where g: "getHostsRegex env now st = (ps, st1)"
    by (cases "getHostsRegex env now st")
  define acc where "acc = scan_anchors env ps (unrestrictedCache st1) (anchors doc) ({}, [])"
  define tl where "tl = scanTextNodes env ps (unrestrictedCache st1) doc"
  have r: "fst (scanPageForLinks env doc now st) = snd (merge_text_links tl (fst acc, snd acc))"
    using g by (simp add: scanPageForLinks_def acc_def tl_def)
  have "href \<noteq> []" and "\<not> prefix ''javascript:'' href"
    using assms(2) by (auto simp: prefix_def)
  then have seen: "href \<in> fst acc"
    unfolding acc_def scan_anchors_seen using assms(1) by simp
  have "filter (\<lambda>l. url l = href) (snd acc) = [magnet_link href]"
    unfolding acc_def using scan_anchors_magnet [OF assms, of "{}" env ps _ "[]"] by simp
  then show ?thesis
    unfolding r using merge_filter_seen [OF seen, of tl "snd acc"] by (simp add: magnet_link_def)
qed

theorem magnet_classification_witness:
  "''magnet:?xt=abc'' \<in> set (anchors demo_doc)
   \<and> prefix ''magnet:'' ''magnet:?xt=abc''
   \<and> filter (\<lambda>l. url l = ''magnet:?xt=abc'') (fst (scanPageForLinks demo_env demo_doc 0 initial)) =
     [\<lparr> url = ''magnet:?xt=abc'', host = ''magnet'', type = magnet, unrestrictedLink = None \<rparr>]"
  using magnet_classification [of "''magnet:?xt=abc''" demo_doc demo_env 0 initial]
  by (simp add: demo_doc_def)

section \<open>Properties of the unrestrict pass and of the scheduler\<close>

lemma unrestrict_calls_simps [simp]:
  "unrestrict_calls [] = []"
  "unrestrict_calls (ms @ ns) = unrestrict_calls ms @ unrestrict_calls ns"
  "unrestrict_calls (UNRESTRICT_LINK u # ms) = u # unrestrict_calls ms"
  "unrestrict_calls (GET_HOSTS_REGEX # ms) = unrestrict_calls ms"
  "unrestrict_calls (REPORT_DETECTED_LINKS ls # ms) = unrestrict_calls ms"
  "unrestrict_calls (map UNRESTRICT_LINK us) = us"
  by (induction us) (simp_all add: unrestrict_calls_def submitted_def)

lemma reports_simps [simp]:
  "reports [] = []"
  "reports (ms @ ns) = reports ms @ reports ns"
  "reports (UNRESTRICT_LINK u # ms) = reports ms"
  "reports (GET_HOSTS_REGEX # ms) = reports ms"
  "reports (REPORT_DETECTED_LINKS ls # ms) = ls # reports ms"
  "reports (map UNRESTRICT_LINK us) = []"
  by (induction us) (simp_all add: reports_def report_of_def)

lemma fresh_set: "set (fresh P us) = set us - P"
  by (induction us arbitrary: P) auto

lemma fresh_distinct: "distinct (fresh P us)"
  by (induction us arbitrary: P) (auto simp: fresh_set)

lemma fresh_nil: "set us \<subseteq> P \<Longrightarrow> fresh P us = []"
  by (induction us arbitrary: P) auto

lemma settle_cases:
  "settle r i (links, h, st) = (links, h, st) \<and> failed r
   \<or> (\<exists>v. r = Resolved True (Some v) \<and>
        settle r i (links, h, st) =
          (links[i := (links ! i)\<lparr> unrestrictedLink := Some v \<rparr>], True,
           st\<lparr> unrestrictedCache := (unrestrictedCache st)(url (links ! i) \<mapsto> v) \<rparr>))"
  by (cases r) (auto simp: settle_def failed_def)

lemma url_update:
  "url (links[i := (links ! i)\<lparr> unrestrictedLink := x \<rparr>] ! j) = url (links ! j)"
  by (cases "i < length links") (auto simp: nth_list_update list_update_beyond)

lemma type_update:
  "type (links[i := (links ! i)\<lparr> unrestrictedLink := x \<rparr>] ! j) = type (links ! j)"
  by (cases "i < length links") (auto simp: nth_list_update list_update_beyond)

text \<open>What the loop does to the state besides the cache of results.\<close>

lemma unrestrict_loop_sent:
  "unrestrict_loop env is (links, h, st) = (links', h', st') \<Longrightarrow>
     sent st' = sent st @ map UNRESTRICT_LINK (fresh (processedLinks st) (map (\<lambda>i. url (links ! i)) is))
     \<and> processedLinks st' = processedLinks st \<union> (\<lambda>i. url (links ! i)) ` set is
     \<and> length links' = length links
     \<and> map url links' = map url links \<and> map type links' = map type links"
proof (induction "is" arbitrary: links h st)
  case Nil
  then show ?case by simp
next
  case (Cons i "is")
  show ?case
  proof (cases "url (links ! i) \<in> processedLinks st")
    case True
    then have "unrestrict_loop env is (links, h, st) = (links', h', st')"
      using Cons.prems by (simp add: submit_def)
    from Cons.IH [OF this] True show ?thesis
      by auto
  next
    case False
    define st1 where "st1 = send (UNRESTRICT_LINK (url (links ! i)))
        (st\<lparr> processedLinks := insert (url (links ! i)) (processedLinks st) \<rparr>)"
    define r where "r = unrestrict_reply env (sent st1)"
    have step: "unrestrict_loop env is (settle r i (links, h, st1)) = (links', h', st')"
      using Cons.prems False by (simp add: submit_def st1_def r_def)
    obtain links1 h1 st2 where s: "settle r i (links, h, st1) = (links1, h1, st2)"
      by (cases "settle r i (links, h, st1)")
    have l1: "length links1 = length links" "\<And>j. url (links1 ! j) = url (links ! j)"
      "\<And>j. type (links1 ! j) = type (links ! j)"
      and s2: "sent st2 = sent st1" "processedLinks st2 = processedLinks st1"
      using settle_cases [of r i links h st1] s by (auto simp: url_update type_update)
    have m: "map url links1 = map url links" "map type links1 = map type links"
      using l1 by (auto simp: list_eq_iff_nth_eq)
    from Cons.IH [OF step [unfolded s]] show ?thesis
      using False l1 s2 m by (auto simp: st1_def send_def)
  qed
qed

lemma unrestrict_loop_frame:
  "unrestrict_loop env is (links, h, st) = (links', h', st') \<Longrightarrow>
     schedule st' = schedule st \<and> cachedHostsRegex st' = cachedHostsRegex st
     \<and> cachedHostsRegexTimestamp st' = cachedHostsRegexTimestamp st
     \<and> isScanning st' = isScanning st"
proof (induction "is" arbitrary: links h st)
  case Nil
  then show ?case by simp
next
  case (Cons i "is")
  show ?case
  proof (cases "url (links ! i) \<in> processedLinks st")
    case True
    then have "unrestrict_loop env is (links, h, st) = (links', h', st')"
      using Cons.prems by (simp add: submit_def)
    from Cons.IH [OF this] show ?thesis .
  next
    case False
    define st1 where "st1 = send (UNRESTRICT_LINK (url (links ! i)))
        (st\<lparr> processedLinks := insert (url (links ! i)) (processedLinks st) \<rparr>)"
    define r where "r = unrestrict_reply env (sent st1)"
    have step: "unrestrict_loop env is (settle r i (links, h, st1)) = (links', h', st')"
      using Cons.prems False by (simp add: submit_def st1_def r_def)
    obtain links1 h1 st2 where s: "settle r i (links, h, st1) = (links1, h1, st2)"
      by (cases "settle r i (links, h, st1)")
    have "st2 = st1 \<or> (\<exists>c. st2 = st1\<lparr> unrestrictedCache := c \<rparr>)"
      using settle_cases [of r i links h st1] s by auto
    then have "schedule st2 = schedule st \<and> cachedHostsRegex st2 = cachedHostsRegex st
        \<and> cachedHostsRegexTimestamp st2 = cachedHostsRegexTimestamp st
        \<and> isScanning st2 = isScanning st"
      by (auto simp: st1_def send_def schedule_def)
    with Cons.IH [OF step [unfolded s]] show ?thesis
      by simp
  qed
qed

lemma unrestrict_loop_cache:
  "unrestrict_loop env is (links, h, st) = (links', h', st') \<Longrightarrow>
     dom (unrestrictedCache st) \<subseteq> processedLinks st \<Longrightarrow>
     dom (unrestrictedCache st') \<subseteq> processedLinks st'"
proof (induction "is" arbitrary: links h st)
  case Nil
  then show ?case by simp
next
  case (Cons i "is")
  show ?case
  proof (cases "url (links ! i) \<in> processedLinks st")
    case True
    then have "unrestrict_loop env is (links, h, st) = (links', h', st')"
      using Cons.prems by (simp add: submit_def)
    from Cons.IH [OF this Cons.prems(2)] show ?thesis .
  next
    case False
    define st1 where "st1 = send (UNRESTRICT_LINK (url (links ! i)))
        (st\<lparr> processedLinks := insert (url (links ! i)) (processedLinks st) \<rparr>)"
    define r where "r = unrestrict_reply env (sent st1)"
    have step: "unrestrict_loop env is (settle r i (links, h, st1)) = (links', h', st')"
      using Cons.prems False by (simp add: submit_def st1_def r_def)
    obtain links1 h1 st2 where s: "settle r i (links, h, st1) = (links1, h1, st2)"
      by (cases "settle r i (links, h, st1)")
    have in_dom: "\<And>x y. unrestrictedCache st x = Some y \<Longrightarrow> x \<in> processedLinks st"
      using Cons.prems(2) by auto
    have "dom (unrestrictedCache st2) \<subseteq> processedLinks st2"
      using settle_cases [of r i links h st1] s
      by (auto simp: st1_def send_def dest: in_dom split: if_splits)
    with Cons.IH [OF step [unfolded s]] show ?thesis
      by simp
  qed
qed

text \<open>A link whose calls all fail keeps its record.\<close>

lemma unrestrict_loop_failed:
  assumes "unrestrict_loop env is (links, h, st) = (links', h', st')"
    and "\<forall>ms. failed (unrestrict_reply env (ms @ [UNRESTRICT_LINK (url (links ! j))]))"
  shows "links' ! j = links ! j
    \<and> unrestrictedCache st' (url (links ! j)) = unrestrictedCache st (url (links ! j))"
  using assms
proof (induction "is" arbitrary: links h st)
  case Nil
  then show ?case by simp
next
  case (Cons i "is")
  show ?case
  proof (cases "url (links ! i) \<in> processedLinks st")
    case True
    then have "unrestrict_loop env is (links, h, st) = (links', h', st')"
      using Cons.prems by (simp add: submit_def)
    from Cons.IH [OF this Cons.prems(2)] show ?thesis .
  next
    case False
    define st1 where "st1 = send (UNRESTRICT_LINK (url (links ! i)))
        (st\<lparr> processedLinks := insert (url (links ! i)) (processedLinks st) \<rparr>)"
    define r where "r = unrestrict_reply env (sent st1)"
    have step: "unrestrict_loop env is (settle r i (links, h, st1)) = (links', h', st')"
      using Cons.prems False by (simp add: submit_def st1_def r_def)
    obtain links1 h1 st2 where s: "settle r i (links, h, st1) = (links1, h1, st2)"
      by (cases "settle r i (links, h, st1)")
    have r: "r = unrestrict_reply env (sent st @ [UNRESTRICT_LINK (url (links ! i))])"
      by (simp add: r_def st1_def send_def)
    have keep: "links1 ! j = links ! j
        \<and> unrestrictedCache st2 (url (links ! j)) = unrestrictedCache st (url (links ! j))"
    proof (cases "failed r")
      case True
      then show ?thesis
        using settle_cases [of r i links h st1] s by (auto simp: failed_def st1_def send_def)
    next
      case ok: False
      then have ne: "url (links ! j) \<noteq> url (links ! i)"
        using Cons.prems(2) r by auto
      then have "j \<noteq> i"
        by auto
      then show ?thesis
        using ne settle_cases [of r i links h st1] s by (auto simp: st1_def send_def)
    qed
    have u: "url (links1 ! j) = url (links ! j)"
      using keep by simp
    from Cons.IH [OF step [unfolded s]] Cons.prems(2) keep u show ?thesis
      by simp
  qed
qed

text \<open>The flag is raised exactly when a link of the loop gained a result.\<close>

lemma unrestrict_loop_gain:
  assumes "unrestrict_loop env is (links, h, st) = (links', h', st')"
    and "distinct is"
    and "\<forall>i \<in> set is. i < length links"
    and "\<forall>i \<in> set is. url (links ! i) \<notin> processedLinks st \<longrightarrow> unrestrictedLink (links ! i) = None"
  shows "(h' \<longleftrightarrow> h \<or> (\<exists>i \<in> set is. unrestrictedLink (links ! i) = None
                              \<and> unrestrictedLink (links' ! i) \<noteq> None))
    \<and> (\<forall>j. j \<notin> set is \<longrightarrow> links' ! j = links ! j)
    \<and> (\<forall>j. unrestrictedLink (links' ! j) \<noteq> unrestrictedLink (links ! j)
          \<longrightarrow> unrestrictedLink (links ! j) = None)"
  using assms
proof (induction "is" arbitrary: links h st)
  case Nil
  then show ?case by simp
next
  case (Cons i "is")
  have d: "distinct is" "i \<notin> set is" "i < length links" "\<forall>k \<in> set is. k < length links"
    using Cons.prems by auto
  show ?case
  proof (cases "url (links ! i) \<in> processedLinks st")
    case True
    then have step: "unrestrict_loop env is (links, h, st) = (links', h', st')"
      using Cons.prems by (simp add: submit_def)
    have pre: "\<forall>k \<in> set is. url (links ! k) \<notin> processedLinks st
        \<longrightarrow> unrestrictedLink (links ! k) = None"
      using Cons.prems(4) by simp
    from Cons.IH [OF step d(1) d(4) pre] d(2) show ?thesis
      by auto
  next
    case False
    define st1 where "st1 = send (UNRESTRICT_LINK (url (links ! i)))
        (st\<lparr> processedLinks := insert (url (links ! i)) (processedLinks st) \<rparr>)"
    define r where "r = unrestrict_reply env (sent st1)"
    have step: "unrestrict_loop env is (settle r i (links, h, st1)) = (links', h', st')"
      using Cons.prems False by (simp add: submit_def st1_def r_def)
    obtain links1 h1 st2 where s: "settle r i (links, h, st1) = (links1, h1, st2)"
      by (cases "settle r i (links, h, st1)")
    have none: "unrestrictedLink (links ! i) = None"
      using Cons.prems(4) False by simp
    have p2: "processedLinks st2 = insert (url (links ! i)) (processedLinks st)"
      using settle_cases [of r i links h st1] s by (auto simp: st1_def send_def)
    have other: "\<And>k. k \<noteq> i \<Longrightarrow> links1 ! k = links ! k" and len: "length links1 = length links"
      using settle_cases [of r i links h st1] s by auto
    have pre: "\<forall>k \<in> set is. url (links1 ! k) \<notin> processedLinks st2
        \<longrightarrow> unrestrictedLink (links1 ! k) = None"
    proof (intro ballI impI)
      fix k
      assume k: "k \<in> set is" and n: "url (links1 ! k) \<notin> processedLinks st2"
      have "k \<noteq> i"
        using k d(2) by auto
      then have e: "links1 ! k = links ! k"
        by (rule other)
      have "url (links ! k) \<notin> processedLinks st"
        using n e p2 by auto
      then show "unrestrictedLink (links1 ! k) = None"
        using Cons.prems(4) k e by auto
    qed
    have d4: "\<forall>k \<in> set is. k < length links1"
      using d(4) len by simp
    note ih = Cons.IH [OF step [unfolded s] d(1) d4 pre]
    have ih3: "\<And>j. unrestrictedLink (links' ! j) \<noteq> unrestrictedLink (links1 ! j)
        \<Longrightarrow> unrestrictedLink (links1 ! j) = None"
      using ih by blast
    have at_i: "links' ! i = links1 ! i"
      using ih d(2) by simp
    consider (fail) "links1 = links" "h1 = h"
      | (ok) v where "links1 = links[i := (links ! i)\<lparr> unrestrictedLink := Some v \<rparr>]" "h1 = True"
      using settle_cases [of r i links h st1] s by auto
    then show ?thesis
    proof cases
      case fail
      then show ?thesis
        using ih d(2) by auto
    next
      case ok
      then have "unrestrictedLink (links1 ! i) = Some v"
        using d(3) by simp
      then have g: "unrestrictedLink (links ! i) = None \<and> unrestrictedLink (links' ! i) \<noteq> None"
        using none at_i by simp
      have h': "h'"
        using ih ok(2) by simp
      have a: "\<forall>j. j \<notin> set (i # is) \<longrightarrow> links' ! j = links ! j"
        using ih other by auto
      have b: "\<forall>j. unrestrictedLink (links' ! j) \<noteq> unrestrictedLink (links ! j)
          \<longrightarrow> unrestrictedLink (links ! j) = None"
      proof (intro allI impI)
        fix j
        assume c: "unrestrictedLink (links' ! j) \<noteq> unrestrictedLink (links ! j)"
        show "unrestrictedLink (links ! j) = None"
        proof (cases "j = i")
          case True
          then show ?thesis using none by simp
        next
          case False
          then have "links1 ! j = links ! j"
            by (rule other)
          then show ?thesis
            using ih3 [of j] c by simp
        qed
      qed
      show ?thesis
        using h' g a b by auto
    qed
  qed
qed

lemma hosterLinks_props:
  "distinct (hosterLinks links)"
  "\<forall>i \<in> set (hosterLinks links). i < length links"
  "map (\<lambda>i. url (links ! i)) (hosterLinks links) = map url (filter (\<lambda>l. type l = hoster) links)"
proof -
  show "distinct (hosterLinks links)" and "\<forall>i \<in> set (hosterLinks links). i < length links"
    by (auto simp: hosterLinks_def)
  have "map ((!) links) (filter (\<lambda>i. type (links ! i) = hoster) [0..<length links])
      = filter (\<lambda>l. type l = hoster) (map ((!) links) [0..<length links])"
    by (simp add: filter_map comp_def)
  then have "map ((!) links) (hosterLinks links) = filter (\<lambda>l. type l = hoster) links"
    by (simp add: hosterLinks_def map_nth)
  then have "map url (map ((!) links) (hosterLinks links))
      = map url (filter (\<lambda>l. type l = hoster) links)"
    by simp
  then show "map (\<lambda>i. url (links ! i)) (hosterLinks links)
      = map url (filter (\<lambda>l. type l = hoster) links)"
    by (simp add: comp_def)
qed

lemma autoUnrestrictLinks_sent:
  assumes "autoUnrestrictLinks env links st = (links', st')"
  shows "\<exists>tail. sent st' = sent st @ map UNRESTRICT_LINK (fresh (processedLinks st) (hoster_urls links)) @ tail
      \<and> (tail = [] \<or> tail = [REPORT_DETECTED_LINKS links'])"
    and "processedLinks st' = processedLinks st \<union> set (hoster_urls links)"
    and "schedule st' = schedule st" and "isScanning st' = isScanning st"
    and "cachedHostsRegex st' = cachedHostsRegex st"
    and "cachedHostsRegexTimestamp st' = cachedHostsRegexTimestamp st"
    and "dom (unrestrictedCache st) \<subseteq> processedLinks st
          \<Longrightarrow> dom (unrestrictedCache st') \<subseteq> processedLinks st'"
    and "length links' = length links"
proof -
  obtain l1 h1 s1 where loop: "unrestrict_loop env (hosterLinks links) (links, False, st) = (l1, h1, s1)"
    by (cases "unrestrict_loop env (hosterLinks links) (links, False, st)")
  have r: "links' = l1" "st' = (if h1 then reportLinksToBackground l1 s1 else s1)"
    using assms loop by (auto simp: autoUnrestrictLinks_def)
  note a = unrestrict_loop_sent [OF loop] and b = unrestrict_loop_frame [OF loop]
  have u: "map (\<lambda>i. url (links ! i)) (hosterLinks links) = hoster_urls links"
    by (simp add: hosterLinks_props(3) hoster_urls_def)
  have set_u: "(\<lambda>i. url (links ! i)) ` set (hosterLinks links) = set (hoster_urls links)"
    using u by (metis set_map)
  show "\<exists>tail. sent st' = sent st @ map UNRESTRICT_LINK (fresh (processedLinks st) (hoster_urls links)) @ tail
      \<and> (tail = [] \<or> tail = [REPORT_DETECTED_LINKS links'])"
    using a r u by (auto simp: reportLinksToBackground_def send_def)
  show "processedLinks st' = processedLinks st \<union> set (hoster_urls links)"
    using a r set_u by (auto simp: reportLinksToBackground_def send_def)
  show "schedule st' = schedule st" "isScanning st' = isScanning st"
    "cachedHostsRegex st' = cachedHostsRegex st"
    "cachedHostsRegexTimestamp st' = cachedHostsRegexTimestamp st"
    using b r by (auto simp: reportLinksToBackground_def send_def schedule_def)
  show "dom (unrestrictedCache st') \<subseteq> processedLinks st'"
    if "dom (unrestrictedCache st) \<subseteq> processedLinks st"
    using unrestrict_loop_cache [OF loop that] r
    by (auto simp: reportLinksToBackground_def send_def)
  show "length links' = length links"
    using a r by simp
qed

lemma autoUnrestrictLinks_calls:
  "unrestrict_calls (sent (snd (autoUnrestrictLinks env links st))) =
     unrestrict_calls (sent st) @ fresh (processedLinks st) (hoster_urls links)"
proof -
  obtain links' st' where a: "autoUnrestrictLinks env links st = (links', st')"
    by (cases "autoUnrestrictLinks env links st")
  from autoUnrestrictLinks_sent(1) [OF a] show ?thesis
    using a by auto
qed

lemma once_extend:
  assumes "once st"
    and "unrestrict_calls (sent st') = unrestrict_calls (sent st) @ fresh (processedLinks st) us"
    and "processedLinks st' = processedLinks st \<union> set us"
  shows "once st'"
  using assms by (auto simp: once_def fresh_set fresh_distinct)

lemma autoUnrestrictLinks_once:
  "once st \<Longrightarrow> once (snd (autoUnrestrictLinks env links st))"
proof -
  assume o: "once st"
  obtain links' st' where a: "autoUnrestrictLinks env links st = (links', st')"
    by (cases "autoUnrestrictLinks env links st")
  have c: "unrestrict_calls (sent st') =
      unrestrict_calls (sent st) @ fresh (processedLinks st) (hoster_urls links)"
    using autoUnrestrictLinks_calls [of env links st] a by simp
  show ?thesis
    using once_extend [OF o c autoUnrestrictLinks_sent(2) [OF a]] a by simp
qed

lemma enriched_push: "enriched c found \<Longrightarrow> type l = hoster \<longrightarrow> unrestrictedLink l = c (url l)
    \<Longrightarrow> enriched c (found @ [l])"
  by (auto simp: enriched_def)

lemma scan_anchors_enriched:
  "enriched c found \<Longrightarrow> enriched c (snd (scan_anchors env ps c hs (seen, found)))"
proof (induction hs arbitrary: seen found)
  case Nil
  then show ?case by simp
next
  case (Cons h hs)
  let ?m = "\<lparr> url = h, host = ''magnet'', type = magnet, unrestrictedLink = None \<rparr> :: 'a detected_link"
  let ?l = "\<lparr> url = h, host = extractHost env h, type = hoster, unrestrictedLink = c h \<rparr>"
  have 1: "enriched c (found @ [?m])"
    using enriched_push [OF Cons.prems, of ?m] by simp
  have 2: "enriched c (found @ [?l])"
    using enriched_push [OF Cons.prems, of ?l] by simp
  show ?case
    using Cons.IH [OF 1] Cons.IH [OF 2] Cons.IH [OF Cons.prems] by simp
qed

lemma scan_urls_enriched:
  "enriched c found \<Longrightarrow> enriched c (snd (scan_urls env ps c us (seen, found)))"
proof (induction us arbitrary: seen found)
  case Nil
  then show ?case by simp
next
  case (Cons u us)
  let ?l = "\<lparr> url = clean_url u, host = extractHost env (clean_url u), type = hoster,
             unrestrictedLink = c (clean_url u) \<rparr>"
  have 2: "enriched c (found @ [?l])"
    using enriched_push [OF Cons.prems, of ?l] by simp
  show ?case
    using Cons.IH [OF 2] Cons.IH [OF Cons.prems] by (simp add: Let_def)
qed

lemma scan_nodes_enriched:
  "enriched c found \<Longrightarrow> enriched c (snd (scan_nodes env ps c ns (seen, found)))"
proof (induction ns arbitrary: seen found)
  case Nil
  then show ?case by simp
next
  case (Cons n ns)
  define acc where "acc = scan_urls env ps c (extractUrlsFromText (nodeValue n)) (seen, found)"
  have e: "enriched c (snd acc)"
    unfolding acc_def using Cons.prems by (rule scan_urls_enriched)
  have "scan_nodes env ps c (n # ns) (seen, found) = scan_nodes env ps c ns (fst acc, snd acc)
      \<or> scan_nodes env ps c (n # ns) (seen, found) = scan_nodes env ps c ns (seen, found)"
    by (simp add: acc_def)
  then show ?case
    using Cons.IH [OF e, of "fst acc"] Cons.IH [OF Cons.prems, of seen] by auto
qed

lemma merge_enriched:
  "enriched c found \<Longrightarrow> enriched c ls \<Longrightarrow> enriched c (snd (merge_text_links ls (seen, found)))"
proof (induction ls arbitrary: seen found)
  case Nil
  then show ?case by simp
next
  case (Cons l ls)
  have ls: "enriched c ls" and l: "type l = hoster \<longrightarrow> unrestrictedLink l = c (url l)"
    using Cons.prems(2) by (auto simp: enriched_def)
  have 1: "enriched c (found @ [l])"
    using Cons.prems(1) l by (rule enriched_push)
  show ?case
    using Cons.IH [OF 1 ls] Cons.IH [OF Cons.prems(1) ls] by simp
qed

lemma getHostsRegex_frame:
  assumes "getHostsRegex env now st = (ps, st')"
  shows "schedule st' = schedule st" and "processedLinks st' = processedLinks st"
    and "unrestrictedCache st' = unrestrictedCache st" and "isScanning st' = isScanning st"
    and "sent st' = sent st \<or> sent st' = sent st @ [GET_HOSTS_REGEX]"
  using assms
  by (auto simp: getHostsRegex_def fetchHostsRegex_eq send_def schedule_def
      split: option.splits if_splits)

lemma scanPageForLinks_frame:
  assumes "scanPageForLinks env doc now st = (links, st')"
  shows "schedule st' = schedule st" and "processedLinks st' = processedLinks st"
    and "unrestrictedCache st' = unrestrictedCache st" and "isScanning st' = isScanning st"
    and "sent st' = sent st \<or> sent st' = sent st @ [GET_HOSTS_REGEX]"
    and "enriched (unrestrictedCache st) links"
proof -
  obtain ps st1 where g: "getHostsRegex env now st = (ps, st1)"
    by (cases "getHostsRegex env now st")
  have st': "st' = st1"
    and links: "links = snd (merge_text_links (scanTextNodes env ps (unrestrictedCache st1) doc)
        (scan_anchors env ps (unrestrictedCache st1) (anchors doc) ({}, [])))"
    using assms g by (auto simp: scanPageForLinks_def)
  note f = getHostsRegex_frame [OF g]
  show "schedule st' = schedule st" "processedLinks st' = processedLinks st"
    "unrestrictedCache st' = unrestrictedCache st" "isScanning st' = isScanning st"
    "sent st' = sent st \<or> sent st' = sent st @ [GET_HOSTS_REGEX]"
    using f st' by auto
  have nil: "enriched (unrestrictedCache st) []"
    by (simp add: enriched_def)
  define acc where "acc = scan_anchors env ps (unrestrictedCache st) (anchors doc) ({}, [])"
  have a: "enriched (unrestrictedCache st) (snd acc)"
    unfolding acc_def using nil by (rule scan_anchors_enriched)
  have t: "enriched (unrestrictedCache st) (scanTextNodes env ps (unrestrictedCache st) doc)"
    unfolding scanTextNodes_def using nil by (rule scan_nodes_enriched)
  have "enriched (unrestrictedCache st)
      (snd (merge_text_links (scanTextNodes env ps (unrestrictedCache st) doc) (fst acc, snd acc)))"
    using a t by (rule merge_enriched)
  then show "enriched (unrestrictedCache st) links"
    using links f(3) by (simp add: acc_def)
qed

lemma autoUnrestrictLinks_report:
  assumes a: "autoUnrestrictLinks env links st = (links', st')"
    and e: "enriched (unrestrictedCache st) links"
    and c: "dom (unrestrictedCache st) \<subseteq> processedLinks st"
  shows "sent st' = sent st @ map UNRESTRICT_LINK (fresh (processedLinks st) (hoster_urls links))
           @ (if gained links links' then [REPORT_DETECTED_LINKS links'] else [])"
proof -
  obtain l1 h1 s1 where loop: "unrestrict_loop env (hosterLinks links) (links, False, st) = (l1, h1, s1)"
    by (cases "unrestrict_loop env (hosterLinks links) (links, False, st)")
  have r: "links' = l1" "st' = (if h1 then reportLinksToBackground l1 s1 else s1)"
    using a loop by (auto simp: autoUnrestrictLinks_def)
  have pre: "\<forall>i \<in> set (hosterLinks links). url (links ! i) \<notin> processedLinks st
      \<longrightarrow> unrestrictedLink (links ! i) = None"
  proof (intro ballI impI)
    fix i
    assume i: "i \<in> set (hosterLinks links)" and n: "url (links ! i) \<notin> processedLinks st"
    have "links ! i \<in> set links" and "type (links ! i) = hoster"
      using i by (auto simp: hosterLinks_def)
    then have "unrestrictedLink (links ! i) = unrestrictedCache st (url (links ! i))"
      using e by (auto simp: enriched_def)
    moreover have "unrestrictedCache st (url (links ! i)) = None"
      using n c by auto
    ultimately show "unrestrictedLink (links ! i) = None"
      by simp
  qed
  note g = unrestrict_loop_gain [OF loop hosterLinks_props(1) hosterLinks_props(2) pre]
  have g1: "h1 \<longleftrightarrow> (\<exists>i \<in> set (hosterLinks links). unrestrictedLink (links ! i) = None
      \<and> unrestrictedLink (l1 ! i) \<noteq> None)"
    using g by simp
  have g2: "\<And>j. j \<notin> set (hosterLinks links) \<Longrightarrow> l1 ! j = links ! j"
    using g by simp
  have "h1 \<longleftrightarrow> gained links l1"
  proof
    assume h1
    then show "gained links l1"
      using g1 hosterLinks_props(2) [of links] unfolding gained_def by blast
  next
    assume "gained links l1"
    then obtain i where i: "unrestrictedLink (links ! i) = None" "unrestrictedLink (l1 ! i) \<noteq> None"
      unfolding gained_def by blast
    have "i \<in> set (hosterLinks links)"
    proof (rule ccontr)
      assume "i \<notin> set (hosterLinks links)"
      then have "l1 ! i = links ! i"
        by (rule g2)
      then show False
        using i by simp
    qed
    then show h1
      using g1 i by blast
  qed
  moreover have "sent s1 = sent st @ map UNRESTRICT_LINK (fresh (processedLinks st) (hoster_urls links))"
    using unrestrict_loop_sent [OF loop] by (simp add: hosterLinks_props(3) hoster_urls_def)
  ultimately show ?thesis
    using r by (simp add: reportLinksToBackground_def send_def)
qed

lemma performAutoScan_cases:
  "performAutoScan env stored doc now st =
     (if isScanning st then st
      else if \<not> autoScanEnabled (getPreferences stored) then st\<lparr> isScanning := False \<rparr>
      else let links = fst (scanPageForLinks env doc now (st\<lparr> isScanning := True \<rparr>));
               st1 = snd (scanPageForLinks env doc now (st\<lparr> isScanning := True \<rparr>))
           in if links = [] then st1\<lparr> isScanning := False \<rparr>
              else if autoUnrestrict (getPreferences stored)
              then (snd (autoUnrestrictLinks env links (reportLinksToBackground links st1)))
                     \<lparr> isScanning := False \<rparr>
              else (reportLinksToBackground links st1)\<lparr> isScanning := False \<rparr>)"
  by (simp add: performAutoScan_def Let_def split: prod.splits)

lemma once_same:
  "once st \<Longrightarrow> unrestrict_calls (sent st') = unrestrict_calls (sent st)
     \<Longrightarrow> processedLinks st' = processedLinks st \<Longrightarrow> once st'"
  by (simp add: once_def)

lemma performAutoScan_props:
  "schedule (performAutoScan env stored doc now st) = schedule st"
  "worker_inv st \<Longrightarrow> worker_inv (performAutoScan env stored doc now st)"
proof -
  define st0 where "st0 = st\<lparr> isScanning := True \<rparr>"
  obtain links st1 where sc: "scanPageForLinks env doc now st0 = (links, st1)"
    by (cases "scanPageForLinks env doc now st0")
  note f = scanPageForLinks_frame [OF sc]
  define st3 where "st3 = reportLinksToBackground links st1"
  obtain links' st2 where au: "autoUnrestrictLinks env links st3 = (links', st2)"
    by (cases "autoUnrestrictLinks env links st3")
  note g = autoUnrestrictLinks_sent [OF au]
  have p: "performAutoScan env stored doc now st =
     (if isScanning st then st
      else if \<not> autoScanEnabled (getPreferences stored) then st\<lparr> isScanning := False \<rparr>
      else if links = [] then st1\<lparr> isScanning := False \<rparr>
      else if autoUnrestrict (getPreferences stored) then st2\<lparr> isScanning := False \<rparr>
      else st3\<lparr> isScanning := False \<rparr>)"
    using sc au by (simp add: performAutoScan_cases st0_def st3_def)
  have s0: "schedule st0 = schedule st" "processedLinks st0 = processedLinks st"
    "unrestrictedCache st0 = unrestrictedCache st" "sent st0 = sent st"
    by (simp_all add: st0_def schedule_def)
  have s3: "schedule st3 = schedule st1" "processedLinks st3 = processedLinks st1"
    "unrestrictedCache st3 = unrestrictedCache st1"
    "sent st3 = sent st1 @ [REPORT_DETECTED_LINKS links]"
    by (simp_all add: st3_def reportLinksToBackground_def send_def schedule_def)
  have up: "\<And>x b. schedule (x\<lparr> isScanning := b \<rparr>) = schedule x"
    by (simp add: schedule_def)
  show "schedule (performAutoScan env stored doc now st) = schedule st"
    unfolding p using f(1) g(3) s0(1) s3(1) by (simp add: up)
  show "worker_inv (performAutoScan env stored doc now st)" if w: "worker_inv st"
  proof -
    have o: "once st" and d: "dom (unrestrictedCache st) \<subseteq> processedLinks st"
      and n: "\<not> isScanning st"
      using w by (auto simp: worker_inv_def)
    have c1: "unrestrict_calls (sent st1) = unrestrict_calls (sent st)"
      using f(5) s0(4) by auto
    have o1: "once st1"
      using once_same [OF o c1] f(2) s0(2) by simp
    have o3: "once st3"
      using once_same [OF o1, of st3] s3 by simp
    have d3: "dom (unrestrictedCache st3) \<subseteq> processedLinks st3"
      using d f(2,3) s0 s3 by simp
    have o2: "once st2"
      using autoUnrestrictLinks_once [OF o3, of env links] au by simp
    have d2: "dom (unrestrictedCache st2) \<subseteq> processedLinks st2"
      using g(7) [OF d3] .
    have up_once: "\<And>x b. once (x\<lparr> isScanning := b \<rparr>) = once x"
      by (simp add: once_def)
    show ?thesis
      unfolding p using n o d o1 o2 o3 d2 d3 f(2,3) s0
      by (simp add: worker_inv_def up_once)
  qed
qed

lemma worker_inv_cong: "worker st' = worker st \<Longrightarrow> worker_inv st' = worker_inv st"
  by (simp add: worker_def worker_inv_def once_def)

lemma sched_inv_cong: "schedule st' = schedule st \<Longrightarrow> sched_inv st' = sched_inv st"
  by (simp add: schedule_def sched_inv_def)

lemma triggerScan_props:
  "worker (triggerScan now st) = worker st"
  "observing (triggerScan now st) = observing st"
  "observer (triggerScan now st) = observer st"
  "scans (triggerScan now st) = scans st"
  "scanTimeout (triggerScan now st) = Some (next_timer st)"
  "sched_inv st \<Longrightarrow> timers (triggerScan now st) = [(next_timer st, now + SCAN_DEBOUNCE_MS)]"
  "sched_inv st \<Longrightarrow> sched_inv (triggerScan now st)"
  by (auto simp: triggerScan_def setTimeout_def clearTimeout_def worker_def sched_inv_def
      split: option.splits)

lemma run_timers_cases:
  assumes "sched_inv st"
  shows "run_timers env stored doc now st =
     (if \<exists>h d. timers st = [(h, d)] \<and> d \<le> now
      then performAutoScan env stored doc now (st\<lparr> timers := [], scans := scans st @ [now] \<rparr>)
      else st)"
proof (cases "timers st = []")
  case True
  then have "st\<lparr> timers := [] \<rparr> = st"
    by (cases st) simp
  then show ?thesis
    using True by (simp add: run_timers_def)
next
  case False
  then obtain h d where t: "timers st = [(h, d)]"
    using assms by (auto simp: sched_inv_def)
  have "st\<lparr> timers := [(h, d)] \<rparr> = st"
    using t by (cases st) simp
  then show ?thesis
    using t by (simp add: run_timers_def timer_callback_def)
qed

lemma run_timers_props:
  assumes "sched_inv st"
  shows "sched_inv (run_timers env stored doc now st)"
    and "worker_inv st \<Longrightarrow> worker_inv (run_timers env stored doc now st)"
    and "observing (run_timers env stored doc now st) = observing st"
    and "observer (run_timers env stored doc now st) = observer st"
proof -
  define st1 where "st1 = st\<lparr> timers := [], scans := scans st @ [now] \<rparr>"
  have w1: "worker st1 = worker st"
    by (simp add: st1_def worker_def)
  have s1: "sched_inv st1"
    using assms by (auto simp: st1_def sched_inv_def)
  have p: "schedule (performAutoScan env stored doc now st1) = schedule st1"
    by (rule performAutoScan_props(1))
  show "sched_inv (run_timers env stored doc now st)"
    unfolding run_timers_cases [OF assms] using assms s1 sched_inv_cong [OF p]
    by (simp add: st1_def)
  show "worker_inv (run_timers env stored doc now st)" if "worker_inv st"
    unfolding run_timers_cases [OF assms]
    using that performAutoScan_props(2) [of st1 env stored doc now] worker_inv_cong [OF w1]
    by (simp add: st1_def)
  show "observing (run_timers env stored doc now st) = observing st"
    "observer (run_timers env stored doc now st) = observer st"
    unfolding run_timers_cases [OF assms] using p
    by (auto simp: st1_def schedule_def)
qed

lemma initAutoScan_props:
  assumes "sched_inv st"
  shows "sched_inv (initAutoScan env stored doc now st)"
    and "worker_inv st \<Longrightarrow> worker_inv (initAutoScan env stored doc now st)"
proof -
  define st1 where "st1 = performAutoScan env stored doc now st"
  have p: "schedule st1 = schedule st"
    unfolding st1_def by (rule performAutoScan_props(1))
  have s1: "sched_inv st1"
    using sched_inv_cong [OF p] assms by simp
  show "sched_inv (initAutoScan env stored doc now st)"
    using assms s1
    by (auto simp: initAutoScan_def sched_inv_def clearTimeout_def st1_def [symmetric]
        split: option.splits)
  show "worker_inv (initAutoScan env stored doc now st)" if w: "worker_inv st"
  proof -
    have w1: "worker_inv st1"
      unfolding st1_def using w by (rule performAutoScan_props(2))
    show ?thesis
      using w w1
      by (auto simp: initAutoScan_def worker_inv_def once_def clearTimeout_def
          st1_def [symmetric] split: option.splits)
  qed
qed

lemma observer_callback_props:
  "worker (observer_callback ms now st) = worker st"
  "sched_inv st \<Longrightarrow> sched_inv (observer_callback ms now st)"
  "observing (observer_callback ms now st) = observing st"
  by (simp_all add: observer_callback_def triggerScan_props)

lemma notify_props:
  "worker (fold (\<lambda>ob. observer_callback ms now) obs st) = worker st"
  "sched_inv st \<Longrightarrow> sched_inv (fold (\<lambda>ob. observer_callback ms now) obs st)"
  by (induction obs arbitrary: st) (simp_all add: observer_callback_props)

lemma onScanPageLinks_props:
  "schedule (snd (onScanPageLinks env doc now st)) = schedule st"
  "worker_inv st \<Longrightarrow> worker_inv (snd (onScanPageLinks env doc now st))"
proof -
  obtain links st1 where sc: "scanPageForLinks env doc now st = (links, st1)"
    by (cases "scanPageForLinks env doc now st")
  note f = scanPageForLinks_frame [OF sc]
  have r: "snd (onScanPageLinks env doc now st) = reportLinksToBackground links st1"
    using sc by (simp add: onScanPageLinks_def)
  show "schedule (snd (onScanPageLinks env doc now st)) = schedule st"
    unfolding r using f(1) by (simp add: reportLinksToBackground_def send_def schedule_def)
  show "worker_inv (snd (onScanPageLinks env doc now st))" if "worker_inv st"
    unfolding r using that f
    by (auto simp: reportLinksToBackground_def send_def worker_inv_def once_def)
qed

lemma onScanPageLinks_sched:
  "sched_inv st \<Longrightarrow> sched_inv (snd (onScanPageLinks env doc now st))"
  using sched_inv_cong [OF onScanPageLinks_props(1)] by blast

lemma notify_worker_inv:
  "worker_inv st \<Longrightarrow> worker_inv (fold (\<lambda>ob. observer_callback ms now) obs st)"
  using worker_inv_cong [OF notify_props(1)] by blast

lemma step_props:
  assumes "sched_inv st" and "worker_inv st"
  shows "sched_inv (step env me st)" and "worker_inv (step env me st)"
proof -
  obtain m e where me: "me = (m, e)"
    by (cases me)
  show "sched_inv (step env me st)"
    using assms(1)
    by (cases e)
      (simp_all add: me step_def initAutoScan_props run_timers_props notify_props
        onScanPageLinks_sched)
  show "worker_inv (step env me st)"
    using assms
    by (cases e)
      (simp_all add: me step_def initAutoScan_props run_timers_props onScanPageLinks_props
        notify_worker_inv)
qed

lemma initial_inv: "sched_inv initial" "worker_inv initial"
  by (simp_all add: sched_inv_def worker_inv_def once_def initial_def)

lemma run_inv:
  "sched_inv st \<Longrightarrow> worker_inv st \<Longrightarrow> sched_inv (run env evs st) \<and> worker_inv (run env evs st)"
  unfolding run_def by (induction evs arbitrary: st) (simp_all add: step_props)

lemma reachable_inv: "sched_inv (run env evs initial)" "worker_inv (run env evs initial)"
  using run_inv [OF initial_inv] by auto

section \<open>Properties of a session\<close>

lemma unrestrict_loop_skip:
  "\<forall>i \<in> set is. url (links ! i) \<in> processedLinks st \<Longrightarrow>
     unrestrict_loop env is (links, h, st) = (links, h, st)"
  by (induction "is") (simp_all add: submit_def)

lemma autoUnrestrictLinks_skip:
  assumes "set (hoster_urls links) \<subseteq> processedLinks st"
  shows "autoUnrestrictLinks env links st = (links, st)"
proof -
  have "set (map (\<lambda>i. url (links ! i)) (hosterLinks links)) \<subseteq> processedLinks st"
    using assms by (simp only: hosterLinks_props(3) hoster_urls_def)
  then have "\<forall>i \<in> set (hosterLinks links). url (links ! i) \<in> processedLinks st"
    by auto
  then show ?thesis
    by (simp add: autoUnrestrictLinks_def unrestrict_loop_skip)
qed

lemma session_once:
  "once st \<Longrightarrow> once (fold (\<lambda>links s. snd (autoUnrestrictLinks env links s)) calls st)"
  by (induction calls arbitrary: st) (simp_all add: autoUnrestrictLinks_once)

text \<open>
  C4. In the record of a whole session, from the load of the script through any events, and
  equally through any sequence of unrestrict passes over any lists, no URL is submitted to the
  unrestrict service twice. A pass issues no further call for a URL that is in
  \<^verbatim>\<open>processedLinks\<close>, and sends nothing at all when the URLs of all its hoster links are
  there. A link is submitted only when its URL is not in \<^verbatim>\<open>processedLinks\<close>, and in the
  state in which its call is in flight the URL is already there.
\<close>

theorem unrestrict_at_most_once:
  "distinct (unrestrict_calls (sent (run env evs initial)))
   \<and> distinct (unrestrict_calls
        (sent (fold (\<lambda>links s. snd (autoUnrestrictLinks env links s)) calls initial)))
   \<and> (u \<in> processedLinks st \<longrightarrow>
        count_list (unrestrict_calls (sent (snd (autoUnrestrictLinks env links st)))) u
          = count_list (unrestrict_calls (sent st)) u)
   \<and> (set (hoster_urls links) \<subseteq> processedLinks st \<longrightarrow>
        sent (snd (autoUnrestrictLinks env links st)) = sent st)
   \<and> (submit u st = Some st1 \<longrightarrow>
        u \<notin> processedLinks st \<and> u \<in> processedLinks st1
        \<and> sent st1 = sent st @ [UNRESTRICT_LINK u])
   \<and> (u \<in> processedLinks st \<longrightarrow> submit u st = None)"
proof -
  have 1: "distinct (unrestrict_calls (sent (run env evs initial)))"
    using reachable_inv(2) [of env evs] by (simp add: worker_inv_def once_def)
  have 2: "distinct (unrestrict_calls
        (sent (fold (\<lambda>links s. snd (autoUnrestrictLinks env links s)) calls initial)))"
    using session_once [of initial env calls] initial_inv(2)
    by (auto simp: worker_inv_def once_def)
  have 3: "count_list (unrestrict_calls (sent (snd (autoUnrestrictLinks env links st)))) u
          = count_list (unrestrict_calls (sent st)) u" if "u \<in> processedLinks st"
  proof -
    have "u \<notin> set (fresh (processedLinks st) (hoster_urls links))"
      using that by (simp add: fresh_set)
    then show ?thesis
      by (simp add: autoUnrestrictLinks_calls count_list_0_iff)
  qed
  have 4: "sent (snd (autoUnrestrictLinks env links st)) = sent st"
    if "set (hoster_urls links) \<subseteq> processedLinks st"
    using autoUnrestrictLinks_skip [OF that] by simp
  have 5: "u \<notin> processedLinks st \<and> u \<in> processedLinks st1
        \<and> sent st1 = sent st @ [UNRESTRICT_LINK u]" if "submit u st = Some st1"
    using that by (auto simp: submit_def send_def split: if_splits)
  have 6: "submit u st = None" if "u \<in> processedLinks st"
    using that by (simp add: submit_def)
  from 1 2 3 4 5 6 show ?thesis
    by blast
qed

lemma two_links_first_pass:
  "''https://host-a.example/1''
      \<in> processedLinks (snd (autoUnrestrictLinks flaky_env two_links initial))"
  "set (hoster_urls two_links)
      \<subseteq> processedLinks (snd (autoUnrestrictLinks flaky_env two_links initial))"
  "unrestrict_calls (sent (snd (autoUnrestrictLinks flaky_env two_links initial)))
     = [''https://host-a.example/1'', ''https://host-a.example/2'']"
  by code_simp+

theorem unrestrict_at_most_once_witness:
  "''https://host-a.example/1''
      \<in> processedLinks (snd (autoUnrestrictLinks flaky_env two_links initial))
   \<and> set (hoster_urls two_links)
      \<subseteq> processedLinks (snd (autoUnrestrictLinks flaky_env two_links initial))
   \<and> submit ''https://host-a.example/1'' (initial :: nat state)
      = Some (initial\<lparr> processedLinks := {''https://host-a.example/1''},
                       sent := [UNRESTRICT_LINK ''https://host-a.example/1''] \<rparr>)
   \<and> unrestrict_calls (sent (snd (autoUnrestrictLinks flaky_env two_links
        (snd (autoUnrestrictLinks flaky_env two_links initial)))))
      = [''https://host-a.example/1'', ''https://host-a.example/2'']
   \<and> count_list (unrestrict_calls (sent (snd (autoUnrestrictLinks flaky_env two_links
        (snd (autoUnrestrictLinks flaky_env two_links initial)))))) ''https://host-a.example/1''
      = 1
   \<and> submit ''https://host-a.example/1'' (snd (autoUnrestrictLinks flaky_env two_links initial))
      = None"
proof -
  have s: "submit ''https://host-a.example/1'' (initial :: nat state)
      = Some (initial\<lparr> processedLinks := {''https://host-a.example/1''},
                       sent := [UNRESTRICT_LINK ''https://host-a.example/1''] \<rparr>)"
    by (simp add: submit_def send_def initial_def)
  note t = unrestrict_at_most_once [of flaky_env "[]" "[]" "''https://host-a.example/1''"
      "snd (autoUnrestrictLinks flaky_env two_links initial)" two_links]
  show ?thesis
    using t s two_links_first_pass by simp
qed

text \<open>
  C5. A rejected call leaves links, flag and state as they are, and the pass goes on: whatever
  the service replies, the calls a pass issues are those for the URLs of its hoster links
  that were not processed before, each once and in order, and afterwards all of them are
  processed. A link whose calls all fail keeps its record, and the cache keeps what it had
  for its URL.
\<close>

theorem unrestrict_failure_isolated:
  "settle Rejected i (links, h, st) = (links, h, st)
   \<and> unrestrict_calls (sent (snd (autoUnrestrictLinks env links st)))
       = unrestrict_calls (sent st) @ fresh (processedLinks st) (hoster_urls links)
   \<and> processedLinks (snd (autoUnrestrictLinks env links st))
       = processedLinks st \<union> set (hoster_urls links)
   \<and> ((\<forall>ms. failed (unrestrict_reply env (ms @ [UNRESTRICT_LINK (url (links ! j))]))) \<longrightarrow>
        fst (autoUnrestrictLinks env links st) ! j = links ! j
        \<and> unrestrictedCache (snd (autoUnrestrictLinks env links st)) (url (links ! j))
            = unrestrictedCache st (url (links ! j)))"
proof -
  obtain links' st' where a: "autoUnrestrictLinks env links st = (links', st')"
    by (cases "autoUnrestrictLinks env links st")
  obtain l1 h1 s1 where loop: "unrestrict_loop env (hosterLinks links) (links, False, st) = (l1, h1, s1)"
    by (cases "unrestrict_loop env (hosterLinks links) (links, False, st)")
  have r: "links' = l1" "unrestrictedCache st' = unrestrictedCache s1"
    using a loop by (auto simp: autoUnrestrictLinks_def reportLinksToBackground_def send_def)
  have 1: "settle Rejected i (links, h, st) = (links, h, st)"
    by (simp add: settle_def)
  have 4: "links' ! j = links ! j
      \<and> unrestrictedCache st' (url (links ! j)) = unrestrictedCache st (url (links ! j))"
    if "\<forall>ms. failed (unrestrict_reply env (ms @ [UNRESTRICT_LINK (url (links ! j))]))"
    using unrestrict_loop_failed [OF loop that] r by simp
  show ?thesis
    using 1 4 autoUnrestrictLinks_calls [of env links st] autoUnrestrictLinks_sent(2) [OF a] a
    by simp
qed

lemma two_links_flaky:
  "\<forall>ms. failed (unrestrict_reply flaky_env (ms @ [UNRESTRICT_LINK (url (two_links ! 0))]))"
  by (simp add: flaky_env_def two_links_def failed_def)

lemma two_links_result:
  "map unrestrictedLink (fst (autoUnrestrictLinks flaky_env two_links initial)) = [None, Some 7]"
  "fresh (processedLinks (initial :: nat state)) (hoster_urls two_links)
     = [''https://host-a.example/1'', ''https://host-a.example/2'']"
  by code_simp+

theorem unrestrict_failure_isolated_witness:
  "(\<forall>ms. failed (unrestrict_reply flaky_env (ms @ [UNRESTRICT_LINK (url (two_links ! 0))])))
   \<and> unrestrict_calls (sent (snd (autoUnrestrictLinks flaky_env two_links initial)))
       = [''https://host-a.example/1'', ''https://host-a.example/2'']
   \<and> fst (autoUnrestrictLinks flaky_env two_links initial) ! 0 = two_links ! 0
   \<and> map unrestrictedLink (fst (autoUnrestrictLinks flaky_env two_links initial))
       = [None, Some 7]"
  using unrestrict_failure_isolated [of 0 two_links False initial flaky_env 0]
    two_links_flaky two_links_result
  by (simp add: initial_def)

text \<open>
  C8. In a state the script can reach, with auto-scan and auto-unrestrict enabled and a scan
  that found links, \<^verbatim>\<open>performAutoScan\<close> reports the scanned list, and after the unrestrict
  pass it reports the list as the pass left it exactly when some link gained a result in the
  pass; otherwise the first report is the only one.
\<close>

theorem second_report_iff_gained:
  assumes "autoScanEnabled (getPreferences stored)" and "autoUnrestrict (getPreferences stored)"
    and "st = run env evs initial"
    and "links = fst (scanPageForLinks env doc now (st\<lparr> isScanning := True \<rparr>))"
    and "links \<noteq> []"
    and "links' = fst (autoUnrestrictLinks env links (reportLinksToBackground links
           (snd (scanPageForLinks env doc now (st\<lparr> isScanning := True \<rparr>)))))"
  shows "reports (sent (performAutoScan env stored doc now st)) =
     reports (sent st) @ [links] @ (if gained links links' then [links'] else [])"
proof -
  define st0 where "st0 = st\<lparr> isScanning := True \<rparr>"
  obtain st1 where sc: "scanPageForLinks env doc now st0 = (links, st1)"
    using assms(4) by (cases "scanPageForLinks env doc now st0") (simp add: st0_def)
  define st3 where "st3 = reportLinksToBackground links st1"
  obtain st2 where au: "autoUnrestrictLinks env links st3 = (links', st2)"
    using assms(6) sc
    by (cases "autoUnrestrictLinks env links st3") (simp add: st0_def st3_def)
  have w: "worker_inv st"
    unfolding assms(3) by (rule reachable_inv)
  then have n: "\<not> isScanning st" and d: "dom (unrestrictedCache st) \<subseteq> processedLinks st"
    by (auto simp: worker_inv_def)
  note f = scanPageForLinks_frame [OF sc]
  have p: "performAutoScan env stored doc now st = st2\<lparr> isScanning := False \<rparr>"
    using assms(1,2,5) n sc au by (simp add: performAutoScan_cases st0_def st3_def)
  have e3: "enriched (unrestrictedCache st3) links"
    using f(3,6) by (simp add: st3_def reportLinksToBackground_def send_def st0_def)
  have d3: "dom (unrestrictedCache st3) \<subseteq> processedLinks st3"
    using d f(2,3) by (simp add: st3_def reportLinksToBackground_def send_def st0_def)
  have r1: "reports (sent st1) = reports (sent st)"
    using f(5) by (auto simp: st0_def)
  have r3: "reports (sent st3) = reports (sent st) @ [links]"
    using r1 by (simp add: st3_def reportLinksToBackground_def send_def)
  show ?thesis
    unfolding p using autoUnrestrictLinks_report [OF au e3 d3] r3 by simp
qed

lemma demo_scan:
  "fst (scanPageForLinks demo_env demo_doc 0 (run demo_env [] initial\<lparr> isScanning := True \<rparr>))
     = [\<lparr> url = ''https://host-a.example/f'', host = ''host-a.example'', type = hoster,
          unrestrictedLink = None \<rparr>, magnet_link ''magnet:?xt=abc'']"
  "fst (autoUnrestrictLinks demo_env
          [\<lparr> url = ''https://host-a.example/f'', host = ''host-a.example'', type = hoster,
              unrestrictedLink = None \<rparr>, magnet_link ''magnet:?xt=abc'']
          (reportLinksToBackground
             [\<lparr> url = ''https://host-a.example/f'', host = ''host-a.example'', type = hoster,
                 unrestrictedLink = None \<rparr>, magnet_link ''magnet:?xt=abc'']
             (snd (scanPageForLinks demo_env demo_doc 0
                (run demo_env [] initial\<lparr> isScanning := True \<rparr>)))))
     = [\<lparr> url = ''https://host-a.example/f'', host = ''host-a.example'', type = hoster,
          unrestrictedLink = Some 7 \<rparr>, magnet_link ''magnet:?xt=abc'']"
  "autoScanEnabled (getPreferences None)" "autoUnrestrict (getPreferences None)"
  "gained [\<lparr> url = ''https://host-a.example/f'', host = ''host-a.example'', type = hoster,
          unrestrictedLink = None :: nat option \<rparr>, magnet_link ''magnet:?xt=abc'']
     [\<lparr> url = ''https://host-a.example/f'', host = ''host-a.example'', type = hoster,
          unrestrictedLink = Some 7 \<rparr>, magnet_link ''magnet:?xt=abc'']"
  by code_simp+

theorem second_report_iff_gained_witness:
  "autoScanEnabled (getPreferences None) \<and> autoUnrestrict (getPreferences None)
   \<and> fst (scanPageForLinks demo_env demo_doc 0 (run demo_env [] initial\<lparr> isScanning := True \<rparr>))
     = [\<lparr> url = ''https://host-a.example/f'', host = ''host-a.example'', type = hoster,
          unrestrictedLink = None \<rparr>, magnet_link ''magnet:?xt=abc'']
   \<and> reports (sent (performAutoScan demo_env None demo_doc 0 (run demo_env [] initial))) =
       [[\<lparr> url = ''https://host-a.example/f'', host = ''host-a.example'', type = hoster,
            unrestrictedLink = None \<rparr>, magnet_link ''magnet:?xt=abc''],
        [\<lparr> url = ''https://host-a.example/f'', host = ''host-a.example'', type = hoster,
            unrestrictedLink = Some 7 \<rparr>, magnet_link ''magnet:?xt=abc'']]"
  using second_report_iff_gained [OF demo_scan(3) demo_scan(4) refl demo_scan(1) [symmetric] _
      demo_scan(2) [symmetric]]
    demo_scan
  by (simp add: run_def initial_def)

text \<open>
  C9. In every state the script can reach at most one observer is connected. There,
  \<^verbatim>\<open>initAutoScan\<close> with auto-scan enabled keeps the observer the module refers to, or
  connects one when there is none, and a second enabled call changes neither the reference
  nor the connected observers; with auto-scan disabled it leaves no observer connected and
  no timeout pending, and both references are null.
\<close>

theorem single_observer:
  assumes "st = run env evs initial"
    and "st' = initAutoScan env stored doc now st"
  shows "length (observing st) \<le> 1
    \<and> (autoScanEnabled (getPreferences stored) \<longrightarrow>
         (case observer st of
            Some ob \<Rightarrow> observer st' = Some ob \<and> observing st' = [ob]
          | None \<Rightarrow> observer st' = Some (next_observer st) \<and> observing st' = [next_observer st])
         \<and> (autoScanEnabled (getPreferences stored2) \<longrightarrow>
              observer (initAutoScan env stored2 doc2 now2 st') = observer st'
              \<and> observing (initAutoScan env stored2 doc2 now2 st') = observing st'))
    \<and> (\<not> autoScanEnabled (getPreferences stored) \<longrightarrow>
         observer st' = None \<and> observing st' = [] \<and> scanTimeout st' = None \<and> timers st' = [])"
proof -
  have s: "sched_inv st"
    unfolding assms(1) by (rule reachable_inv)
  have enabled: "observer (initAutoScan env sp d n x) = Some (case observer x of Some ob \<Rightarrow> ob | None \<Rightarrow> next_observer x)
      \<and> observing (initAutoScan env sp d n x) = [case observer x of Some ob \<Rightarrow> ob | None \<Rightarrow> next_observer x]"
    if "autoScanEnabled (getPreferences sp)" and "sched_inv x" for sp d n and x :: "'a state"
  proof -
    define x1 where "x1 = performAutoScan env sp d n x"
    have p: "schedule x1 = schedule x"
      unfolding x1_def by (rule performAutoScan_props(1))
    then have "observer x1 = observer x" "observing x1 = observing x"
      "next_observer x1 = next_observer x"
      by (auto simp: schedule_def)
    then show ?thesis
      using that by (auto simp: initAutoScan_def x1_def [symmetric] sched_inv_def split: option.splits)
  qed
  have 1: "length (observing st) \<le> 1"
    using s by (auto simp: sched_inv_def split: option.splits)
  have s': "sched_inv st'"
    unfolding assms(2) using s by (rule initAutoScan_props(1))
  have 2: "case observer st of
            Some ob \<Rightarrow> observer st' = Some ob \<and> observing st' = [ob]
          | None \<Rightarrow> observer st' = Some (next_observer st) \<and> observing st' = [next_observer st]"
    if "autoScanEnabled (getPreferences stored)"
    using enabled [OF that s, of doc now] by (simp add: assms(2) split: option.splits)
  have 3: "observer (initAutoScan env stored2 doc2 now2 st') = observer st'
      \<and> observing (initAutoScan env stored2 doc2 now2 st') = observing st'"
    if "autoScanEnabled (getPreferences stored)" and "autoScanEnabled (getPreferences stored2)"
    using enabled [OF that(2) s', of doc2 now2] 2 [OF that(1)] by (auto split: option.splits)
  have 4: "observer st' = None \<and> observing st' = [] \<and> scanTimeout st' = None \<and> timers st' = []"
    if "\<not> autoScanEnabled (getPreferences stored)"
    using that s
    by (auto simp: assms(2) initAutoScan_def sched_inv_def clearTimeout_def split: option.splits)
  from 1 2 3 4 show ?thesis
    by blast
qed

lemma demo_events_state:
  "observer (run demo_env demo_events initial) = Some 1"
  "observing (run demo_env demo_events initial) = [1]"
  "timers (run demo_env demo_events initial) = [(1, 1010)]"
  "scanTimeout (run demo_env demo_events initial) = Some 1"
  by code_simp+

theorem single_observer_witness:
  "\<not> autoScanEnabled (getPreferences scan_disabled)
   \<and> autoScanEnabled (getPreferences None)
   \<and> observing (run demo_env demo_events initial) = [1]
   \<and> timers (run demo_env demo_events initial) = [(1, 1010)]
   \<and> observing (initAutoScan demo_env None blank_doc 20 (run demo_env demo_events initial)) = [1]
   \<and> observer (initAutoScan demo_env scan_disabled blank_doc 20 (run demo_env demo_events initial))
       = None
   \<and> observing (initAutoScan demo_env scan_disabled blank_doc 20 (run demo_env demo_events initial))
       = []
   \<and> scanTimeout (initAutoScan demo_env scan_disabled blank_doc 20 (run demo_env demo_events initial))
       = None
   \<and> timers (initAutoScan demo_env scan_disabled blank_doc 20 (run demo_env demo_events initial))
       = []"
  using single_observer [OF refl refl, of demo_env demo_events None blank_doc 20 None]
    single_observer [OF refl refl, of demo_env demo_events scan_disabled blank_doc 20 None]
    demo_events_state
  by (simp add: getPreferences_def scan_disabled_def)




















end
